theory Spec2Isabelle
  imports Complex_Main
begin

section \<open>Data model\<close>

text \<open>
  Modelled from the spec: the \<^verbatim>\<open>Type\<close> hierarchy of \<^verbatim>\<open>Type.ts\<close>, which
  \<^verbatim>\<open>CombineClasses.ts\<close> imports but which is not among the sources. The spec describes
  a type as a closed tagged union over kinds (null, bool, number, integer, string, record,
  array, map-of, union) with a kind discriminator and structural equality; the string
  variant carries an optional histogram from literal value to occurrence count (a
  \<open>number\<close>). A record node used as a field type is named by its graph reference.
  \<^verbatim>\<open>t.equals(other)\<close> is equality of these values. An \<^verbatim>\<open>OrderedSet\<close> is a list in
  insertion order, an \<^verbatim>\<open>OrderedMap\<close> an association list in insertion order.
\<close>

text \<open>
  Modelled from the spec: the JavaScript \<^verbatim>\<open>number\<close>s that a histogram holds. A count
  is a non-negative integer; adding counts can also give \<^verbatim>\<open>Infinity\<close>.
\<close>

datatype number = Num nat | PosInfinity

datatype ty =
    TNull
  | TBool
  | TInteger
  | TDouble
  | TString "(string \<times> number) list option"
  | TArray ty
  | TMap ty
  | TClass nat
  | TUnion "ty list"

text \<open>
  Modelled from the spec: the kind discriminator \<^verbatim>\<open>t.kind\<close>. The source names the
  kinds \<^verbatim>\<open>"string"\<close> and \<^verbatim>\<open>"null"\<close>; the other names only have to differ.
\<close>

fun kind :: "ty \<Rightarrow> string" where
  "kind TNull = ''null''"
| "kind TBool = ''bool''"
| "kind TInteger = ''integer''"
| "kind TDouble = ''double''"
| "kind (TString _) = ''string''"
| "kind (TArray _) = ''array''"
| "kind (TMap _) = ''map''"
| "kind (TClass _) = ''class''"
| "kind (TUnion _) = ''union''"

text \<open>
  Modelled from the spec: \<^verbatim>\<open>t instanceof StringType\<close>, and \<^verbatim>\<open>t.enumCases\<close>, the
  optional histogram of a string type.
\<close>

fun isStringType :: "ty \<Rightarrow> bool" where
  "isStringType (TString _) = True"
| "isStringType _ = False"

fun enumCases :: "ty \<Rightarrow> (string \<times> number) list option" where
  "enumCases (TString h) = h"
| "enumCases _ = None"

text \<open>
  \<^verbatim>\<open>OrderedSet(xs)\<close>: the elements of a sequence in the order of their first occurrence.
\<close>

definition OrderedSet :: "'a list \<Rightarrow> 'a list" where
  "OrderedSet xs = rev (remdups (rev xs))"

text \<open>
  Modelled from the spec: \<^verbatim>\<open>nonNullTypeCases\<close> of \<^verbatim>\<open>Type.ts\<close> (not among the
  sources), the spec's non-null member extraction: given a type that may be a nullable
  wrapper or union, its non-null alternatives as a set, empty if the type carries no
  non-null possibility.
\<close>

fun nonNullTypeCases :: "ty \<Rightarrow> ty list" where
  "nonNullTypeCases TNull = []"
| "nonNullTypeCases (TUnion ms) = OrderedSet (filter (\<lambda>m. m \<noteq> TNull) ms)"
| "nonNullTypeCases t = [t]"

type_synonym TypeNames = "string list"

text \<open>
  \<^verbatim>\<open>ClassType\<close>: the field mapping \<^verbatim>\<open>properties\<close> (an Immutable.js map from field
  name to type, here the list of its entries in iteration order), the \<^verbatim>\<open>isFixed\<close>
  flag and the name hints. \<open>typeRef\<close> is the node's identity in the graph.
\<close>

record ClassType =
  typeRef :: nat
  properties :: "(string \<times> ty) list"
  isFixed :: bool
  getNames :: TypeNames

text \<open>The invariant of a map: no field name occurs twice among the entries.\<close>

definition uniqueFieldNames :: "ClassType \<Rightarrow> bool" where
  "uniqueFieldNames c = distinct (map fst (properties c))"

text \<open>
  \<^verbatim>\<open>Map.has\<close> and \<^verbatim>\<open>Map.get\<close> on the entry list; \<^verbatim>\<open>Map.size\<close> is its length.
\<close>

definition has :: "('k \<times> 'v) list \<Rightarrow> 'k \<Rightarrow> bool" where
  "has m k = (k \<in> fst ` set m)"

definition get :: "('k \<times> 'v) list \<Rightarrow> 'k \<Rightarrow> 'v option" where
  "get m k = map_of m k"

text \<open>
  \<^verbatim>\<open>Map(entries)\<close>: the map built from a sequence of key/value pairs by setting them
  one after the other, so that for a repeated key the last pair stands.
\<close>

definition MapOfEntries :: "('k \<times> 'v) list \<Rightarrow> 'k \<Rightarrow> 'v option" where
  "MapOfEntries es = map_of (rev es)"

text \<open>
  The failures of the source as values: the \<^verbatim>\<open>assert\<close> and the \<^verbatim>\<open>panic\<close> of
  \<^verbatim>\<open>canBeCombined\<close>, the two \<^verbatim>\<open>assert\<close>s of \<^verbatim>\<open>makeCliqueClass\<close>, \<^verbatim>\<open>defined\<close>
  applied to \<^verbatim>\<open>undefined\<close>, and a \<^verbatim>\<open>reduce\<close> without initial value over no elements.
\<close>

datatype error =
    MaxFaultsNegative
  | MissingProperty
  | StringsWithOtherTypes
  | EmptyClique
  | UndefinedValue
  | ReduceOfEmpty

section \<open>The combinability predicate\<close>

text \<open>
  \<^verbatim>\<open>const REQUIRED_OVERLAP = 3 / 4\<close>. The source computes in IEEE doubles; 3/4 and every
  product of it with a map size below \<open>2^51\<close> are exact there, so the rationals give the
  same comparisons and the same \<^verbatim>\<open>Math.ceil\<close>.
\<close>

definition REQUIRED_OVERLAP :: rat where
  "REQUIRED_OVERLAP = 3 / 4"

text \<open>
  \<^verbatim>\<open>typeSetsCanBeCombined\<close> (lines 17-29): sizes must agree; \<open>s2\<close> is indexed by kind;
  every member of \<open>s1\<close> must find the member indexed under its kind and be equal to it or
  be a string.
\<close>

definition typeSetsCanBeCombined :: "ty list \<Rightarrow> ty list \<Rightarrow> bool" where
  "typeSetsCanBeCombined s1 s2 =
     (if length s1 \<noteq> length s2 then False
      else
        let s2ByKind = MapOfEntries (map (\<lambda>t. (kind t, t)) s2) in
        list_all (\<lambda>t.
          case s2ByKind (kind t) of
            None \<Rightarrow> False
          | Some other \<Rightarrow>
              if t = other then True
              else if kind t = ''string'' then True
              else False) s1)"

text \<open>
  The \<^verbatim>\<open>smaller.forEach\<close> of lines 51-58. Immutable.js stops a \<^verbatim>\<open>forEach\<close> as soon as
  the callback returns \<^verbatim>\<open>false\<close>; the state is the list of common properties and the
  fault counter.
\<close>

fun forEachSmaller ::
  "(string \<times> ty) list \<Rightarrow> int \<Rightarrow> (string \<times> ty) list \<Rightarrow> string list \<times> int \<Rightarrow> string list \<times> int"
where
  "forEachSmaller larger maxFaults [] st = st"
| "forEachSmaller larger maxFaults ((name, _) # rest) (commonProperties, faults) =
     (if has larger name
      then forEachSmaller larger maxFaults rest (commonProperties @ [name], faults)
      else if faults + 1 > maxFaults then (commonProperties, faults + 1)
      else forEachSmaller larger maxFaults rest (commonProperties, faults + 1))"

text \<open>The \<^verbatim>\<open>for (const name of commonProperties)\<close> loop of lines 60-71.\<close>

fun checkCommonProperties ::
  "(string \<times> ty) list \<Rightarrow> (string \<times> ty) list \<Rightarrow> string list \<Rightarrow> error + bool"
where
  "checkCommonProperties smaller larger [] = Inr True"
| "checkCommonProperties smaller larger (name # rest) =
     (case (get smaller name, get larger name) of
        (Some tS, Some tL) \<Rightarrow>
          (let tsCases = nonNullTypeCases tS;
               tlCases = nonNullTypeCases tL
           in if tsCases \<noteq> [] \<and> tlCases \<noteq> [] \<and> \<not> typeSetsCanBeCombined tsCases tlCases
              then Inr False
              else checkCommonProperties smaller larger rest)
      | _ \<Rightarrow> Inl MissingProperty)"

text \<open>The choice of \<^verbatim>\<open>larger\<close> and \<^verbatim>\<open>smaller\<close> (lines 37-45); on a tie the second map is the larger.\<close>

definition largerOf :: "(string \<times> ty) list \<Rightarrow> (string \<times> ty) list \<Rightarrow> (string \<times> ty) list" where
  "largerOf p1 p2 = (if length p1 > length p2 then p1 else p2)"

definition smallerOf :: "(string \<times> ty) list \<Rightarrow> (string \<times> ty) list \<Rightarrow> (string \<times> ty) list" where
  "smallerOf p1 p2 = (if length p1 > length p2 then p2 else p1)"

definition minOverlap :: "(string \<times> ty) list \<Rightarrow> int" where
  "minOverlap larger = \<lceil>of_nat (length larger) * REQUIRED_OVERLAP\<rceil>"

definition maxFaults :: "(string \<times> ty) list \<Rightarrow> (string \<times> ty) list \<Rightarrow> int" where
  "maxFaults larger smaller = int (length smaller) - minOverlap larger"

text \<open>The size-ratio test of line 34.\<close>

definition sizeGateRejects :: "(string \<times> ty) list \<Rightarrow> (string \<times> ty) list \<Rightarrow> bool" where
  "sizeGateRejects p1 p2 =
     (of_nat (length p1) < of_nat (length p2) * REQUIRED_OVERLAP
      \<or> of_nat (length p2) < of_nat (length p1) * REQUIRED_OVERLAP)"

text \<open>\<^verbatim>\<open>canBeCombined\<close> (lines 31-73).\<close>

definition canBeCombined :: "ClassType \<Rightarrow> ClassType \<Rightarrow> error + bool" where
  "canBeCombined c1 c2 =
     (let p1 = properties c1;
          p2 = properties c2
      in if sizeGateRejects p1 p2 then Inr False
         else
           let larger = largerOf p1 p2;
               smaller = smallerOf p1 p2;
               mf = maxFaults larger smaller
           in if \<not> mf \<ge> 0 then Inl MaxFaultsNegative
              else
                case forEachSmaller larger mf smaller ([], 0) of
                  (commonProperties, faults) \<Rightarrow>
                    if faults > mf then Inr False
                    else checkCommonProperties smaller larger commonProperties)"

section \<open>The clique builder\<close>

text \<open>\<^verbatim>\<open>isPartOfClique\<close> (lines 75-82).\<close>

fun isPartOfClique :: "ClassType \<Rightarrow> ClassType list \<Rightarrow> error + bool" where
  "isPartOfClique c [] = Inr True"
| "isPartOfClique c (cc # clique) =
     (case canBeCombined c cc of
        Inl e \<Rightarrow> Inl e
      | Inr ok \<Rightarrow> if \<not> ok then Inr False else isPartOfClique c clique)"

text \<open>
  One round of the builder, the \<^verbatim>\<open>for\<close> loop of lines 99-106 over
  \<^verbatim>\<open>unprocessedClasses[1..]\<close>; the state is \<^verbatim>\<open>clique\<close> and \<^verbatim>\<open>classesLeft\<close>.
\<close>

fun cliqueRound ::
  "ClassType list \<Rightarrow> ClassType list \<times> ClassType list \<Rightarrow> error + ClassType list \<times> ClassType list"
where
  "cliqueRound [] st = Inr st"
| "cliqueRound (c # cs) (clique, classesLeft) =
     (case isPartOfClique c clique of
        Inl e \<Rightarrow> Inl e
      | Inr part \<Rightarrow>
          if part then cliqueRound cs (clique @ [c], classesLeft)
          else cliqueRound cs (clique, classesLeft @ [c]))"

text \<open>
  The \<^verbatim>\<open>while (unprocessedClasses.length > 0)\<close> loop of lines 95-113; the second
  argument is \<^verbatim>\<open>cliques\<close>.
\<close>

function buildCliques :: "ClassType list \<Rightarrow> ClassType list list \<Rightarrow> error + ClassType list list" where
  "buildCliques [] cliques = Inr cliques"
| "buildCliques (seed # rest) cliques =
     (case cliqueRound rest ([seed], []) of
        Inl e \<Rightarrow> Inl e
      | Inr (clique, classesLeft) \<Rightarrow>
          buildCliques classesLeft (if length clique > 1 then cliques @ [clique] else cliques))"
  by pat_completeness auto
termination
proof (relation "measure (\<lambda>(unprocessedClasses, _). length unprocessedClasses)")
  show "wf (measure (\<lambda>(unprocessedClasses, _). length unprocessedClasses))" by simp
next
  fix seed :: ClassType and rest cliques x2 clique classesLeft
  assume run: "cliqueRound rest ([seed], []) = Inr x2" and x2: "(clique, classesLeft) = x2"
  have shrink: "cliqueRound cs (q, l) = Inr (q', l') \<Longrightarrow> length l' \<le> length l + length cs"
    for cs q l q' l'
  proof (induction cs arbitrary: q l)
    case Nil
    then show ?case by simp
  next
    case (Cons c cs)
    show ?case
    proof (cases "isPartOfClique c q")
      case (Inl e)
      with Cons.prems show ?thesis by simp
    next
      case (Inr part)
      with Cons.prems Cons.IH [of "q @ [c]" l] Cons.IH [of q "l @ [c]"]
      show ?thesis by (cases part) auto
    qed
  qed
  from run x2 have "cliqueRound rest ([seed], []) = Inr (clique, classesLeft)" by simp
  from shrink [OF this] have "length classesLeft \<le> length rest" by simp
  then show "((classesLeft, if 1 < length clique then cliques @ [clique] else cliques),
              seed # rest, cliques)
             \<in> measure (\<lambda>(unprocessedClasses, _). length unprocessedClasses)"
    by simp
qed

section \<open>The property merger\<close>

text \<open>
  Modelled from the spec: the node-construction calls of the \<^verbatim>\<open>GraphRewriteBuilder\<close>
  of \<^verbatim>\<open>TypeBuilder.ts\<close> (not among the sources). The builder only receives what
  \<^verbatim>\<open>makeCliqueClass\<close> hands it, so a \<^verbatim>\<open>TypeRef\<close> is the call that made it:
  \<^verbatim>\<open>getPrimitiveType\<close>, \<^verbatim>\<open>getStringType\<close>, \<^verbatim>\<open>reconstituteType\<close>, \<^verbatim>\<open>makeNullable\<close>
  and \<^verbatim>\<open>getClassType\<close> with their arguments.
\<close>

datatype TypeRef =
    GetPrimitiveType string
  | GetStringType TypeNames "(string \<times> number) list"
  | ReconstituteType ty
  | MakeNullable TypeRef TypeNames
  | GetClassType TypeNames "(string \<times> TypeRef) list"

text \<open>
  \<^verbatim>\<open>a + b\<close> on counts (line 130) is the addition of IEEE 754 doubles: the exact sum
  rounded to 53 significant bits, a tie going to the even neighbour, and \<^verbatim>\<open>Infinity\<close>
  once the rounded sum reaches \<open>2^1024\<close>. Every integer up to \<open>2^53\<close> is a double, so
  sums up to there are exact. \<open>bitLength n\<close> is the number of binary digits of \<open>n\<close>.
\<close>

fun bitLength :: "nat \<Rightarrow> nat" where
  "bitLength n = (if n = 0 then 0 else Suc (bitLength (n div 2)))"

definition roundToDouble :: "nat \<Rightarrow> number" where
  "roundToDouble n =
     (if n \<le> 2 ^ 53 then Num n
      else
        let e = bitLength n - 53;
            q = n div 2 ^ e;
            r = n mod 2 ^ e;
            m = (if 2 * r > 2 ^ e \<or> (2 * r = 2 ^ e \<and> odd q) then (q + 1) * 2 ^ e else q * 2 ^ e)
        in if m \<ge> 2 ^ 1024 then PosInfinity else Num m)"

fun numberAdd :: "number \<Rightarrow> number \<Rightarrow> number" where
  "numberAdd (Num a) (Num b) = roundToDouble (a + b)"
| "numberAdd PosInfinity _ = PosInfinity"
| "numberAdd _ PosInfinity = PosInfinity"

text \<open>
  \<^verbatim>\<open>l.mergeWith(merger, r)\<close> on ordered maps: every entry of \<open>r\<close> in turn updates the
  value under its key with \<^verbatim>\<open>merger(existing, value)\<close>, or is appended when the key is new.
\<close>

fun updateWith :: "('v \<Rightarrow> 'v \<Rightarrow> 'v) \<Rightarrow> ('k \<times> 'v) list \<Rightarrow> 'k \<times> 'v \<Rightarrow> ('k \<times> 'v) list" where
  "updateWith merger [] (k, v) = [(k, v)]"
| "updateWith merger ((k', existing) # m) (k, v) =
     (if k' = k then (k', merger existing v) # m
      else (k', existing) # updateWith merger m (k, v))"

definition mergeWith :: "('v \<Rightarrow> 'v \<Rightarrow> 'v) \<Rightarrow> ('k \<times> 'v) list \<Rightarrow> ('k \<times> 'v) list \<Rightarrow> ('k \<times> 'v) list" where
  "mergeWith merger l r = foldl (updateWith merger) l r"

text \<open>\<^verbatim>\<open>defined\<close> of \<^verbatim>\<open>Support.ts\<close> on every element, and \<^verbatim>\<open>reduce\<close> without an initial value.\<close>

fun definedAll :: "'a option list \<Rightarrow> error + 'a list" where
  "definedAll [] = Inr []"
| "definedAll (None # _) = Inl UndefinedValue"
| "definedAll (Some x # xs) =
     (case definedAll xs of Inl e \<Rightarrow> Inl e | Inr ys \<Rightarrow> Inr (x # ys))"

fun reduce :: "('a \<Rightarrow> 'a \<Rightarrow> 'a) \<Rightarrow> 'a list \<Rightarrow> error + 'a" where
  "reduce f [] = Inl ReduceOfEmpty"
| "reduce f (x # xs) = Inr (foldl f x xs)"

text \<open>
  \<^verbatim>\<open>makePropertyType\<close> (lines 116-143). \<open>resultTypeOf\<close> is the chain of lines 118-138 that
  sets \<^verbatim>\<open>resultType\<close>; lines 139-141 wrap it when \<^verbatim>\<open>isNullable\<close>.
\<close>

definition resultTypeOf :: "TypeNames \<Rightarrow> ty list \<Rightarrow> error + TypeRef" where
  "resultTypeOf names types =
     (case types of
        [] \<Rightarrow> Inr (GetPrimitiveType ''null'')
      | first # _ \<Rightarrow>
          if isStringType first then
            if \<not> list_all isStringType types then Inl StringsWithOtherTypes
            else if list_all (\<lambda>t. enumCases t \<noteq> None) types then
              case definedAll (map enumCases types) of
                Inl e \<Rightarrow> Inl e
              | Inr allEnumCases \<Rightarrow>
                  (case reduce (\<lambda>l r. mergeWith (\<lambda>a b. numberAdd a b) l r) allEnumCases of
                     Inl e \<Rightarrow> Inl e
                   | Inr mergedCases \<Rightarrow> Inr (GetStringType names mergedCases))
            else Inr (ReconstituteType first)
          else Inr (ReconstituteType first))"

definition makePropertyType :: "TypeNames \<Rightarrow> ty list \<Rightarrow> bool \<Rightarrow> error + TypeRef" where
  "makePropertyType names types isNullable =
     (case resultTypeOf names types of
        Inl e \<Rightarrow> Inl e
      | Inr resultType \<Rightarrow>
          Inr (if isNullable then MakeNullable resultType names else resultType))"

text \<open>
  Modelled from the spec: \<^verbatim>\<open>typeNamesUnion\<close> of \<^verbatim>\<open>TypeNames.ts\<close> (not among the
  sources), the union that merges the hints of several sources into one bundle.
\<close>

definition typeNamesUnion :: "TypeNames list \<Rightarrow> TypeNames" where
  "typeNamesUnion allNames = OrderedSet (concat allNames)"

text \<open>
  \<^verbatim>\<open>makeCliqueClass\<close> (lines 115-149). \<^verbatim>\<open>getCliqueProperties\<close> of
  \<^verbatim>\<open>UnifyClasses.ts\<close> is not among the sources: it is a parameter here, a function that
  is given the clique and \<^verbatim>\<open>makePropertyType\<close> and returns the merged field mapping, or
  fails when a call of \<^verbatim>\<open>makePropertyType\<close> fails.
\<close>

type_synonym CliqueProperties =
  "ClassType list \<Rightarrow> (TypeNames \<Rightarrow> ty list \<Rightarrow> bool \<Rightarrow> error + TypeRef) \<Rightarrow> error + (string \<times> TypeRef) list"

definition makeCliqueClass :: "CliqueProperties \<Rightarrow> ClassType list \<Rightarrow> error + TypeRef" where
  "makeCliqueClass getCliqueProperties clique =
     (if \<not> length clique > 0 then Inl EmptyClique
      else
        let allNames = map getNames clique in
        case getCliqueProperties clique makePropertyType of
          Inl e \<Rightarrow> Inl e
        | Inr props \<Rightarrow> Inr (GetClassType (typeNamesUnion allNames) props))"

section \<open>The orchestrator\<close>

text \<open>
  Modelled from the spec: \<^verbatim>\<open>graph.rewrite\<close> of \<^verbatim>\<open>TypeGraph.ts\<close> (not among the
  sources) replaces each group of nodes by the node its constructor builds, and produces
  no graph when a constructor fails. Its result here is the list of groups, each with its
  new node.
\<close>

fun rewrite ::
  "ClassType list list \<Rightarrow> (ClassType list \<Rightarrow> error + TypeRef) \<Rightarrow> error + (ClassType list \<times> TypeRef) list"
where
  "rewrite [] mk = Inr []"
| "rewrite (nodes # nodeGroups) mk =
     (case mk nodes of
        Inl e \<Rightarrow> Inl e
      | Inr node \<Rightarrow>
          (case rewrite nodeGroups mk of
             Inl e \<Rightarrow> Inl e
           | Inr replaced \<Rightarrow> Inr ((nodes, node) # replaced)))"

text \<open>
  \<^verbatim>\<open>combineClasses\<close> (lines 84-151). \<open>classes\<close> is
  \<^verbatim>\<open>graph.allNamedTypesSeparated().classes\<close>, the record nodes of the graph in order;
  \<open>cliquesOf\<close> is the value of \<^verbatim>\<open>cliques\<close> at line 151.
\<close>

definition cliquesOf :: "ClassType list \<Rightarrow> error + ClassType list list" where
  "cliquesOf classes =
     (let unprocessedClasses = filter (\<lambda>c. \<not> isFixed c) classes
      in buildCliques unprocessedClasses [])"

definition combineClasses ::
  "CliqueProperties \<Rightarrow> ClassType list \<Rightarrow> error + (ClassType list \<times> TypeRef) list"
where
  "combineClasses getCliqueProperties classes =
     (case cliquesOf classes of
        Inl e \<Rightarrow> Inl e
      | Inr cliques \<Rightarrow> rewrite cliques (makeCliqueClass getCliqueProperties))"

section \<open>Conditions used in the statements\<close>

text \<open>
  Every field type of the record has at most one non-null member of each kind, so that
  indexing its non-null members by kind loses none of them.
\<close>

definition oneTypePerKind :: "ClassType \<Rightarrow> bool" where
  "oneTypePerKind c = list_all (\<lambda>(name, t). distinct (map kind (nonNullTypeCases t))) (properties c)"

text \<open>
  Every member of the list can be combined, as first argument of \<^verbatim>\<open>canBeCombined\<close>,
  with every member before it: the order in which the clique builder tests a candidate.
\<close>

definition admittedInOrder :: "ClassType list \<Rightarrow> bool" where
  "admittedInOrder q = (\<forall>j<length q. \<forall>i<j. canBeCombined (q ! j) (q ! i) = Inr True)"

text \<open>The count a histogram holds for a literal value, 0 when the value is absent.\<close>

definition occurrences :: "('k \<times> nat) list \<Rightarrow> 'k \<Rightarrow> nat" where
  "occurrences h v = (case map_of h v of None \<Rightarrow> 0 | Some c \<Rightarrow> c)"

text \<open>A histogram of natural counts as the histogram of numbers that a string type carries.\<close>

definition countsOf :: "('k \<times> nat) list \<Rightarrow> ('k \<times> number) list" where
  "countsOf h = map (\<lambda>(v, c). (v, Num c)) h"

section \<open>Facts about the type-set check\<close>

lemma map_of_kind_find:
  "map_of (map (\<lambda>t. (f t, t)) xs) k = find (\<lambda>u. f u = k) xs"
  by (induction xs) auto

lemma MapOfEntries_find:
  "MapOfEntries (map (\<lambda>t. (kind t, t)) s2) k = find (\<lambda>u. kind u = k) (rev s2)"
  by (simp add: MapOfEntries_def rev_map map_of_kind_find)

lemma typeSetsCanBeCombined_find:
  "typeSetsCanBeCombined s1 s2 \<longleftrightarrow>
     length s1 = length s2 \<and>
     (\<forall>t\<in>set s1. \<exists>other. find (\<lambda>u. kind u = kind t) (rev s2) = Some other
        \<and> (t = other \<or> kind t = ''string''))"
  by (auto simp: typeSetsCanBeCombined_def MapOfEntries_find list_all_iff split: option.splits)

lemma find_mem: "find P xs = Some y \<Longrightarrow> y \<in> set xs \<and> P y"
  by (induction xs) (auto split: if_splits)

lemma find_distinct_kind:
  assumes "distinct (map kind s)"
  shows "find (\<lambda>u. kind u = k) (rev s) = Some other \<longleftrightarrow> other \<in> set s \<and> kind other = k"
proof -
  have inj: "inj_on kind (set s)" using assms by (simp add: distinct_map)
  show ?thesis
  proof
    assume "find (\<lambda>u. kind u = k) (rev s) = Some other"
    from find_mem [OF this] show "other \<in> set s \<and> kind other = k" by simp
  next
    assume h: "other \<in> set s \<and> kind other = k"
    then have "find (\<lambda>u. kind u = k) (rev s) \<noteq> None"
      by (auto simp: find_None_iff)
    then obtain y where y: "find (\<lambda>u. kind u = k) (rev s) = Some y" by blast
    from find_mem [OF this] have "y \<in> set s \<and> kind y = k" by simp
    with h inj have "y = other" by (auto dest: inj_onD)
    with y show "find (\<lambda>u. kind u = k) (rev s) = Some other" by simp
  qed
qed

lemma typeSetsCanBeCombined_distinct:
  assumes "distinct (map kind s2)"
  shows "typeSetsCanBeCombined s1 s2 \<longleftrightarrow>
     length s1 = length s2 \<and>
     (\<forall>t\<in>set s1. \<exists>other\<in>set s2. kind other = kind t \<and> (t = other \<or> kind t = ''string''))"
proof -
  have "(\<exists>other. find (\<lambda>u. kind u = kind t) (rev s2) = Some other \<and> (t = other \<or> kind t = ''string''))
        \<longleftrightarrow> (\<exists>other\<in>set s2. kind other = kind t \<and> (t = other \<or> kind t = ''string''))" for t
    unfolding find_distinct_kind [OF assms] by blast
  then show ?thesis unfolding typeSetsCanBeCombined_find by simp
qed

lemma card_kinds: "distinct (map kind s) \<Longrightarrow> card (kind ` set s) = length s"
  using distinct_card [of "map kind s"] by simp

lemma typeSetsCanBeCombined_sym_imp:
  assumes d1: "distinct (map kind s1)" and d2: "distinct (map kind s2)"
    and c: "typeSetsCanBeCombined s1 s2"
  shows "typeSetsCanBeCombined s2 s1"
proof -
  from c have len: "length s1 = length s2"
    and m: "\<forall>t\<in>set s1. \<exists>other\<in>set s2. kind other = kind t \<and> (t = other \<or> kind t = ''string'')"
    by (simp_all add: typeSetsCanBeCombined_distinct [OF d2])
  have sub: "kind ` set s1 \<subseteq> kind ` set s2"
  proof
    fix k assume "k \<in> kind ` set s1"
    then obtain t where "t \<in> set s1" "k = kind t" by blast
    with m show "k \<in> kind ` set s2" by (metis imageI)
  qed
  have eq: "kind ` set s1 = kind ` set s2"
    using sub len card_kinds [OF d1] card_kinds [OF d2] by (simp add: card_subset_eq)
  have inj2: "inj_on kind (set s2)" using d2 by (simp add: distinct_map)
  have "\<exists>t\<in>set s1. kind t = kind u \<and> (u = t \<or> kind u = ''string'')" if u: "u \<in> set s2" for u
  proof -
    from u have "kind u \<in> kind ` set s1" using eq by blast
    then obtain t where t: "t \<in> set s1" "kind t = kind u" by auto
    with m obtain other where o: "other \<in> set s2" "kind other = kind t" "t = other \<or> kind t = ''string''"
      by blast
    from o(1,2) t(2) u inj2 have "other = u" by (auto dest: inj_onD)
    with o t show ?thesis by auto
  qed
  with len show ?thesis by (simp add: typeSetsCanBeCombined_distinct [OF d1])
qed

lemma typeSetsCanBeCombined_sym:
  "distinct (map kind s1) \<Longrightarrow> distinct (map kind s2) \<Longrightarrow>
   typeSetsCanBeCombined s1 s2 = typeSetsCanBeCombined s2 s1"
  using typeSetsCanBeCombined_sym_imp by blast

section \<open>Facts about \<open>canBeCombined\<close>\<close>

lemma has_get: "has m k \<longleftrightarrow> (\<exists>v. get m k = Some v)"
proof -
  have "k \<in> fst ` set m \<longleftrightarrow> map_of m k \<noteq> None" by (simp add: map_of_eq_None_iff)
  then show ?thesis by (auto simp: has_def get_def)
qed

lemma forEachSmaller_result:
  "f0 \<le> mf \<Longrightarrow> forEachSmaller larger mf smaller (c0, f0) = (c, f) \<Longrightarrow>
     (f > mf \<longleftrightarrow> f0 + int (length (filter (\<lambda>n. \<not> has larger n) (map fst smaller))) > mf) \<and>
     (\<not> f > mf \<longrightarrow> c = c0 @ filter (has larger) (map fst smaller))"
proof (induction smaller arbitrary: c0 f0)
  case Nil
  then show ?case by simp
next
  case (Cons e rest)
  obtain name t where e: "e = (name, t)" by (cases e)
  show ?case
  proof (cases "has larger name")
    case True
    with Cons.prems e have "forEachSmaller larger mf rest (c0 @ [name], f0) = (c, f)" by simp
    from Cons.IH [OF Cons.prems(1) this] True e show ?thesis by simp
  next
    case False
    show ?thesis
    proof (cases "f0 + 1 > mf")
      case True
      with False Cons.prems e have "c = c0" "f = f0 + 1" by simp_all
      with True False e show ?thesis by simp
    next
      case nb: False
      then have le: "f0 + 1 \<le> mf" by simp
      from nb False Cons.prems e
      have "forEachSmaller larger mf rest (c0, f0 + 1) = (c, f)" by simp
      from Cons.IH [OF le this] False e show ?thesis by (simp add: add.assoc)
    qed
  qed
qed

lemma checkCommonProperties_result:
  "\<forall>n\<in>set ns. has smaller n \<and> has larger n \<Longrightarrow>
   checkCommonProperties smaller larger ns =
     Inr (\<forall>n\<in>set ns. \<forall>tS tL. get smaller n = Some tS \<longrightarrow> get larger n = Some tL \<longrightarrow>
            nonNullTypeCases tS = [] \<or> nonNullTypeCases tL = [] \<or>
            typeSetsCanBeCombined (nonNullTypeCases tS) (nonNullTypeCases tL))"
proof (induction ns)
  case Nil
  then show ?case by simp
next
  case (Cons n ns)
  from Cons.prems obtain tS tL where g: "get smaller n = Some tS" "get larger n = Some tL"
    by (auto simp: has_get)
  from Cons.prems have "\<forall>n\<in>set ns. has smaller n \<and> has larger n" by simp
  from Cons.IH [OF this] g show ?case by (simp add: Let_def)
qed

lemma ceiling_three_quarters:
  "\<not> (of_nat s :: rat) < of_nat l * REQUIRED_OVERLAP \<Longrightarrow>
   \<lceil>(of_nat l :: rat) * REQUIRED_OVERLAP\<rceil> \<le> int s"
  by (simp add: ceiling_le_iff not_less)

lemma maxFaults_nonneg:
  "\<not> sizeGateRejects p1 p2 \<Longrightarrow> 0 \<le> maxFaults (largerOf p1 p2) (smallerOf p1 p2)"
  using ceiling_three_quarters [of "length p1" "length p2"]
        ceiling_three_quarters [of "length p2" "length p1"]
  by (auto simp: sizeGateRejects_def maxFaults_def minOverlap_def largerOf_def smallerOf_def)

lemma canBeCombined_char:
  fixes c1 c2
  defines "larger \<equiv> largerOf (properties c1) (properties c2)"
    and "smaller \<equiv> smallerOf (properties c1) (properties c2)"
  shows "canBeCombined c1 c2 =
     Inr (\<not> sizeGateRejects (properties c1) (properties c2) \<and>
          int (length (filter (\<lambda>n. \<not> has larger n) (map fst smaller))) \<le> maxFaults larger smaller \<and>
          (\<forall>n tS tL. get smaller n = Some tS \<longrightarrow> get larger n = Some tL \<longrightarrow>
             nonNullTypeCases tS = [] \<or> nonNullTypeCases tL = [] \<or>
             typeSetsCanBeCombined (nonNullTypeCases tS) (nonNullTypeCases tL)))"
proof (cases "sizeGateRejects (properties c1) (properties c2)")
  case True
  then show ?thesis by (simp add: canBeCombined_def)
next
  case gate: False
  let ?mf = "maxFaults larger smaller"
  have mf: "0 \<le> ?mf" unfolding larger_def smaller_def by (rule maxFaults_nonneg [OF gate])
  obtain c f where run: "forEachSmaller larger ?mf smaller ([], 0) = (c, f)"
    by (cases "forEachSmaller larger ?mf smaller ([], 0)")
  from forEachSmaller_result [OF mf run]
  have over: "f > ?mf \<longleftrightarrow> int (length (filter (\<lambda>n. \<not> has larger n) (map fst smaller))) > ?mf"
    and common: "\<not> f > ?mf \<Longrightarrow> c = filter (has larger) (map fst smaller)"
    by simp_all
  have unfold: "canBeCombined c1 c2 =
      (if f > ?mf then Inr False else checkCommonProperties smaller larger c)"
    using gate mf run by (simp add: canBeCombined_def Let_def larger_def smaller_def)
  show ?thesis
  proof (cases "f > ?mf")
    case True
    with unfold over show ?thesis by simp
  next
    case False
    from common [OF False] have c: "c = filter (has larger) (map fst smaller)" .
    have "\<forall>n\<in>set c. has smaller n \<and> has larger n"
      unfolding c by (auto simp: has_def)
    from checkCommonProperties_result [OF this]
    have chk: "checkCommonProperties smaller larger c =
       Inr (\<forall>n\<in>set c. \<forall>tS tL. get smaller n = Some tS \<longrightarrow> get larger n = Some tL \<longrightarrow>
            nonNullTypeCases tS = [] \<or> nonNullTypeCases tL = [] \<or>
            typeSetsCanBeCombined (nonNullTypeCases tS) (nonNullTypeCases tL))" .
    have mem: "n \<in> set c" if "get smaller n = Some tS" "get larger n = Some tL" for n tS tL
    proof -
      from that have "has smaller n" "has larger n" by (auto simp: has_get)
      then show ?thesis unfolding c by (auto simp: has_def)
    qed
    have "(\<forall>n\<in>set c. \<forall>tS tL. get smaller n = Some tS \<longrightarrow> get larger n = Some tL \<longrightarrow>
            nonNullTypeCases tS = [] \<or> nonNullTypeCases tL = [] \<or>
            typeSetsCanBeCombined (nonNullTypeCases tS) (nonNullTypeCases tL))
      \<longleftrightarrow> (\<forall>n tS tL. get smaller n = Some tS \<longrightarrow> get larger n = Some tL \<longrightarrow>
            nonNullTypeCases tS = [] \<or> nonNullTypeCases tL = [] \<or>
            typeSetsCanBeCombined (nonNullTypeCases tS) (nonNullTypeCases tL))"
      using mem by blast
    with unfold chk False over gate show ?thesis by simp
  qed
qed

lemma canBeCombined_total: "\<exists>r. canBeCombined c1 c2 = Inr r"
  using canBeCombined_char [of c1 c2] by blast

lemma sizeGateRejects_commute: "sizeGateRejects p1 p2 = sizeGateRejects p2 p1"
  by (auto simp: sizeGateRejects_def)

lemma sizeGate_smaller:
  "\<not> sizeGateRejects p1 p2 \<longleftrightarrow>
   (of_nat (length (smallerOf p1 p2)) :: rat) \<ge> of_nat (length (largerOf p1 p2)) * REQUIRED_OVERLAP"
proof -
  have mono: "(of_nat m :: rat) * REQUIRED_OVERLAP \<le> of_nat n" if "m \<le> n" for m n :: nat
  proof -
    have "(of_nat m :: rat) * REQUIRED_OVERLAP \<le> of_nat m"
      by (simp add: REQUIRED_OVERLAP_def)
    also have "\<dots> \<le> of_nat n" using that by simp
    finally show ?thesis .
  qed
  show ?thesis
    using mono [of "length p1" "length p2"] mono [of "length p2" "length p1"]
    by (auto simp: sizeGateRejects_def largerOf_def smallerOf_def not_less)
qed

lemma absent_count_card:
  assumes "distinct (map fst smaller)"
  shows "length (filter (\<lambda>n. \<not> has larger n) (map fst smaller)) =
         card (fst ` set smaller - fst ` set larger)"
proof -
  have "distinct (filter (\<lambda>n. \<not> has larger n) (map fst smaller))"
    using assms by (rule distinct_filter)
  then have "length (filter (\<lambda>n. \<not> has larger n) (map fst smaller)) =
             card (set (filter (\<lambda>n. \<not> has larger n) (map fst smaller)))"
    by (rule distinct_card [symmetric])
  also have "set (filter (\<lambda>n. \<not> has larger n) (map fst smaller)) = fst ` set smaller - fst ` set larger"
    by (auto simp: has_def)
  finally show ?thesis .
qed

lemma card_diff_commute:
  assumes "finite A" "finite B" "card A = card B"
  shows "card (A - B) = card (B - A)"
proof -
  have "card (A - B) + card (A \<inter> B) = card A"
    using assms(1) card_Diff_subset_Int [of A B] card_mono [of A "A \<inter> B"] by simp
  moreover have "card (B - A) + card (A \<inter> B) = card B"
    using assms(2) card_Diff_subset_Int [of B A] card_mono [of B "B \<inter> A"] by (simp add: Int_commute)
  ultimately show ?thesis using assms(3) by linarith
qed

lemma compat_swap:
  assumes a: "oneTypePerKind a" and b: "oneTypePerKind b"
    and h: "\<forall>n tS tL. get (properties a) n = Some tS \<longrightarrow> get (properties b) n = Some tL \<longrightarrow>
             nonNullTypeCases tS = [] \<or> nonNullTypeCases tL = [] \<or>
             typeSetsCanBeCombined (nonNullTypeCases tS) (nonNullTypeCases tL)"
  shows "\<forall>n tS tL. get (properties b) n = Some tS \<longrightarrow> get (properties a) n = Some tL \<longrightarrow>
             nonNullTypeCases tS = [] \<or> nonNullTypeCases tL = [] \<or>
             typeSetsCanBeCombined (nonNullTypeCases tS) (nonNullTypeCases tL)"
proof (intro allI impI)
  fix n tS tL
  assume gb: "get (properties b) n = Some tS" and ga: "get (properties a) n = Some tL"
  from ga have "(n, tL) \<in> set (properties a)" by (simp add: get_def map_of_SomeD)
  with a have dL: "distinct (map kind (nonNullTypeCases tL))"
    by (auto simp: oneTypePerKind_def list_all_iff)
  from gb have "(n, tS) \<in> set (properties b)" by (simp add: get_def map_of_SomeD)
  with b have dS: "distinct (map kind (nonNullTypeCases tS))"
    by (auto simp: oneTypePerKind_def list_all_iff)
  from h ga gb have "nonNullTypeCases tL = [] \<or> nonNullTypeCases tS = [] \<or>
             typeSetsCanBeCombined (nonNullTypeCases tL) (nonNullTypeCases tS)" by blast
  with typeSetsCanBeCombined_sym [OF dL dS]
  show "nonNullTypeCases tS = [] \<or> nonNullTypeCases tL = [] \<or>
             typeSetsCanBeCombined (nonNullTypeCases tS) (nonNullTypeCases tL)" by blast
qed

lemma canBeCombined_tie_imp:
  assumes ua: "uniqueFieldNames a" and ub: "uniqueFieldNames b"
    and len: "length (properties a) = length (properties b)"
    and ka: "oneTypePerKind a" and kb: "oneTypePerKind b"
    and c: "canBeCombined a b = Inr True"
  shows "canBeCombined b a = Inr True"
proof -
  let ?pa = "properties a" and ?pb = "properties b"
  have lab: "largerOf ?pa ?pb = ?pb" "smallerOf ?pa ?pb = ?pa"
    and lba: "largerOf ?pb ?pa = ?pa" "smallerOf ?pb ?pa = ?pb"
    using len by (simp_all add: largerOf_def smallerOf_def)
  from c have gate: "\<not> sizeGateRejects ?pa ?pb"
    and cnt: "int (length (filter (\<lambda>n. \<not> has ?pb n) (map fst ?pa))) \<le> maxFaults ?pb ?pa"
    and cmp: "\<forall>n tS tL. get ?pa n = Some tS \<longrightarrow> get ?pb n = Some tL \<longrightarrow>
             nonNullTypeCases tS = [] \<or> nonNullTypeCases tL = [] \<or>
             typeSetsCanBeCombined (nonNullTypeCases tS) (nonNullTypeCases tL)"
    unfolding canBeCombined_char [of a b] lab by simp_all
  have da: "distinct (map fst ?pa)" and db: "distinct (map fst ?pb)"
    using ua ub by (simp_all add: uniqueFieldNames_def)
  have "card (fst ` set ?pa) = length ?pa" "card (fst ` set ?pb) = length ?pb"
    using distinct_card [OF da] distinct_card [OF db] by simp_all
  with len have "card (fst ` set ?pa) = card (fst ` set ?pb)" by simp
  then have "card (fst ` set ?pa - fst ` set ?pb) = card (fst ` set ?pb - fst ` set ?pa)"
    by (intro card_diff_commute) simp_all
  then have cnt_eq: "length (filter (\<lambda>n. \<not> has ?pa n) (map fst ?pb))
      = length (filter (\<lambda>n. \<not> has ?pb n) (map fst ?pa))"
    unfolding absent_count_card [OF da] absent_count_card [OF db] by simp
  have mf_eq: "maxFaults ?pa ?pb = maxFaults ?pb ?pa"
    using len by (simp add: maxFaults_def minOverlap_def)
  have gate': "\<not> sizeGateRejects ?pb ?pa" using gate by (simp add: sizeGateRejects_commute)
  from compat_swap [OF ka kb cmp] gate' cnt cnt_eq mf_eq
  show ?thesis unfolding canBeCombined_char [of b a] lba by simp
qed

lemma canBeCombined_differ:
  assumes "length (properties a) \<noteq> length (properties b)"
  shows "canBeCombined a b = canBeCombined b a"
proof -
  have "largerOf (properties a) (properties b) = largerOf (properties b) (properties a)"
       "smallerOf (properties a) (properties b) = smallerOf (properties b) (properties a)"
    using assms by (auto simp: largerOf_def smallerOf_def)
  then show ?thesis
    unfolding canBeCombined_char [of a b] canBeCombined_char [of b a]
    by (simp add: sizeGateRejects_commute [of "properties a" "properties b"])
qed

lemma canBeCombined_true_commute:
  assumes "uniqueFieldNames a" "uniqueFieldNames b" "oneTypePerKind a" "oneTypePerKind b"
    and "canBeCombined a b = Inr True"
  shows "canBeCombined b a = Inr True"
proof (cases "length (properties a) = length (properties b)")
  case True
  from canBeCombined_tie_imp [OF assms(1,2) True assms(3,4,5)] show ?thesis .
next
  case False
  from canBeCombined_differ [OF False] assms(5) show ?thesis by simp
qed

section \<open>Facts about the clique builder\<close>

lemma isPartOfClique_result:
  "isPartOfClique c q = Inr (\<forall>cc\<in>set q. canBeCombined c cc = Inr True)"
proof (induction q)
  case Nil
  then show ?case by simp
next
  case (Cons cc q)
  obtain r where r: "canBeCombined c cc = Inr r" using canBeCombined_total by blast
  with Cons show ?case by (cases r) simp_all
qed

lemma admittedInOrder_snoc:
  assumes "admittedInOrder q" and "\<forall>cc\<in>set q. canBeCombined c cc = Inr True"
  shows "admittedInOrder (q @ [c])"
  unfolding admittedInOrder_def
proof (intro allI impI)
  fix j i assume j: "j < length (q @ [c])" and i: "i < j"
  show "canBeCombined ((q @ [c]) ! j) ((q @ [c]) ! i) = Inr True"
  proof (cases "j < length q")
    case True
    with i assms(1) show ?thesis by (simp add: admittedInOrder_def nth_append)
  next
    case False
    with j have jl: "j = length q" by simp
    with i have "q ! i \<in> set q" by simp
    with assms(2) jl i show ?thesis by (simp add: nth_append)
  qed
qed

lemma cliqueRound_result:
  "\<exists>q' l'. cliqueRound cs (q, l) = Inr (q', l') \<and>
     (admittedInOrder q \<longrightarrow> admittedInOrder q') \<and>
     length q \<le> length q' \<and>
     (distinct (q @ l @ cs) \<longrightarrow> distinct (q' @ l')) \<and>
     set q' \<union> set l' = set q \<union> set l \<union> set cs"
proof (induction cs arbitrary: q l)
  case Nil
  then show ?case by simp
next
  case (Cons c cs)
  show ?case
  proof (cases "\<forall>cc\<in>set q. canBeCombined c cc = Inr True")
    case True
    then have "isPartOfClique c q = Inr True" by (simp add: isPartOfClique_result)
    then have step: "cliqueRound (c # cs) (q, l) = cliqueRound cs (q @ [c], l)"
      by simp
    from Cons.IH [of "q @ [c]" l] obtain q' l' where
      r: "cliqueRound cs (q @ [c], l) = Inr (q', l')"
      and a: "admittedInOrder (q @ [c]) \<longrightarrow> admittedInOrder q'"
      and n: "length (q @ [c]) \<le> length q'"
      and d: "distinct ((q @ [c]) @ l @ cs) \<longrightarrow> distinct (q' @ l')"
      and s: "set q' \<union> set l' = set (q @ [c]) \<union> set l \<union> set cs"
      by blast
    have "admittedInOrder q \<longrightarrow> admittedInOrder q'"
      using a admittedInOrder_snoc [OF _ True] by blast
    moreover have "length q \<le> length q'" using n by simp
    moreover have "distinct (q @ l @ c # cs) \<longrightarrow> distinct (q' @ l')" using d by auto
    moreover have "set q' \<union> set l' = set q \<union> set l \<union> set (c # cs)" using s by auto
    ultimately show ?thesis using step r by simp
  next
    case False
    then have "isPartOfClique c q = Inr False" by (simp add: isPartOfClique_result)
    then have step: "cliqueRound (c # cs) (q, l) = cliqueRound cs (q, l @ [c])"
      by simp
    from Cons.IH [of q "l @ [c]"] obtain q' l' where
      r: "cliqueRound cs (q, l @ [c]) = Inr (q', l')"
      and a: "admittedInOrder q \<longrightarrow> admittedInOrder q'"
      and n: "length q \<le> length q'"
      and d: "distinct (q @ (l @ [c]) @ cs) \<longrightarrow> distinct (q' @ l')"
      and s: "set q' \<union> set l' = set q \<union> set (l @ [c]) \<union> set cs"
      by blast
    have "distinct (q @ l @ c # cs) \<longrightarrow> distinct (q' @ l')" using d by auto
    moreover have "set q' \<union> set l' = set q \<union> set l \<union> set (c # cs)" using s by auto
    ultimately show ?thesis using step r a n by simp
  qed
qed

lemma admittedInOrder_single: "admittedInOrder [seed]"
  by (simp add: admittedInOrder_def)

lemma buildCliques_result:
  "\<exists>new. buildCliques cs acc = Inr (acc @ new) \<and>
     (\<forall>q\<in>set new. 2 \<le> length q \<and> admittedInOrder q) \<and>
     (distinct cs \<longrightarrow> distinct (concat new)) \<and>
     set (concat new) \<subseteq> set cs"
proof (induction cs acc rule: buildCliques.induct)
  case (1 cliques)
  then show ?case by simp
next
  case (2 seed rest cliques)
  from cliqueRound_result [of rest "[seed]" "[]"] obtain clique classesLeft where
    r: "cliqueRound rest ([seed], []) = Inr (clique, classesLeft)"
    and a: "admittedInOrder clique"
    and n: "1 \<le> length clique"
    and d: "distinct (seed # rest) \<longrightarrow> distinct (clique @ classesLeft)"
    and s: "set clique \<union> set classesLeft = set (seed # rest)"
    using admittedInOrder_single by auto
  let ?acc = "if length clique > 1 then cliques @ [clique] else cliques"
  from "2.IH" [OF r refl] obtain new where
    b: "buildCliques classesLeft ?acc = Inr (?acc @ new)"
    and q: "\<forall>q\<in>set new. 2 \<le> length q \<and> admittedInOrder q"
    and dn: "distinct classesLeft \<longrightarrow> distinct (concat new)"
    and sn: "set (concat new) \<subseteq> set classesLeft"
    by blast
  have run: "buildCliques (seed # rest) cliques = Inr (?acc @ new)"
    using r b by simp
  show ?case
  proof (cases "length clique > 1")
    case True
    let ?new = "clique # new"
    have 1: "buildCliques (seed # rest) cliques = Inr (cliques @ ?new)"
      using run True by simp
    have 2: "\<forall>q\<in>set ?new. 2 \<le> length q \<and> admittedInOrder q"
      using q a True by simp
    have 3: "distinct (seed # rest) \<longrightarrow> distinct (concat ?new)"
    proof
      assume "distinct (seed # rest)"
      with d have dd: "distinct (clique @ classesLeft)" by blast
      then have "distinct clique" "distinct classesLeft" "set clique \<inter> set classesLeft = {}"
        by simp_all
      with dn sn show "distinct (concat ?new)" by auto
    qed
    have 4: "set (concat ?new) \<subseteq> set (seed # rest)"
      using s sn by auto
    from 1 2 3 4 show ?thesis by blast
  next
    case False
    have 1: "buildCliques (seed # rest) cliques = Inr (cliques @ new)"
      using run False by simp
    have 3: "distinct (seed # rest) \<longrightarrow> distinct (concat new)"
    proof
      assume "distinct (seed # rest)"
      with d have "distinct classesLeft" by simp
      with dn show "distinct (concat new)" by blast
    qed
    have 4: "set (concat new) \<subseteq> set (seed # rest)"
      using s sn by auto
    from 1 q 3 4 show ?thesis by blast
  qed
qed

lemma distinct_concat_disjoint:
  assumes "distinct (concat qs)" "i < j" "j < length qs"
  shows "set (qs ! i) \<inter> set (qs ! j) = {}"
proof -
  have "qs = take j qs @ qs ! j # drop (Suc j) qs"
    using assms(3) by (simp add: id_take_nth_drop)
  then have "concat qs = concat (take j qs) @ qs ! j @ concat (drop (Suc j) qs)"
    by (metis concat.simps(2) concat_append)
  with assms(1) have "set (concat (take j qs)) \<inter> set (qs ! j) = {}" by auto
  moreover have "qs ! i \<in> set (take j qs)"
    using assms(2,3) by (metis in_set_conv_nth length_take min.absorb2 nth_take less_imp_le)
  ultimately show ?thesis by auto
qed

lemma rewrite_groups: "rewrite groups mk = Inr out \<Longrightarrow> map fst out = groups"
proof (induction groups arbitrary: out)
  case Nil
  then show ?case by simp
next
  case (Cons g groups)
  then show ?case by (auto split: sum.splits)
qed

section \<open>Facts about the property merger\<close>

lemma updateWith_keys:
  "set (map fst (updateWith f m (k, v))) = insert k (set (map fst m))"
proof (induction m)
  case Nil
  then show ?case by simp
next
  case (Cons e m)
  obtain k' x where e: "e = (k', x)" by (cases e)
  with Cons show ?case by auto
qed

lemma updateWith_distinct:
  "distinct (map fst m) \<Longrightarrow> distinct (map fst (updateWith f m (k, v)))"
proof (induction m)
  case Nil
  then show ?case by simp
next
  case (Cons e m)
  obtain k' x where e: "e = (k', x)" by (cases e)
  from Cons e show ?case
    using updateWith_keys [of f m k v] by auto
qed

lemma updateWith_map_of:
  "map_of (updateWith (\<lambda>a b. a + b) m (k, v)) k' =
     (if k' = k then Some ((case map_of m k of None \<Rightarrow> 0 | Some c \<Rightarrow> c) + (v::nat))
      else map_of m k')"
  by (induction m) auto

lemma occurrences_absent: "v \<notin> set (map fst h) \<Longrightarrow> occurrences h v = 0"
  by (simp add: occurrences_def map_of_eq_None_iff [THEN iffD2])

lemma mergeWith_result:
  assumes "distinct (map fst l)" and "distinct (map fst r)"
  shows "distinct (map fst (mergeWith (\<lambda>a b. a + b) l r)) \<and>
         set (map fst (mergeWith (\<lambda>a b. a + b) l r)) = set (map fst l) \<union> set (map fst r) \<and>
         (\<forall>v. occurrences (mergeWith (\<lambda>a b. a + b) l r) v = occurrences l v + occurrences r v)"
  using assms
proof (induction r arbitrary: l)
  case Nil
  then show ?case by (simp add: mergeWith_def occurrences_def)
next
  case (Cons e r)
  obtain k x where e: "e = (k, x)" by (cases e)
  let ?l = "updateWith (\<lambda>a b. a + b) l (k, x)"
  have dl: "distinct (map fst ?l)" using Cons.prems(1) by (rule updateWith_distinct)
  from Cons.prems(2) e have dr: "distinct (map fst r)" and kr: "k \<notin> set (map fst r)" by auto
  have step: "mergeWith (\<lambda>a b. a + b) l (e # r) = mergeWith (\<lambda>a b. a + b) ?l r"
    by (simp add: mergeWith_def e)
  from Cons.IH [OF dl dr] have
    d: "distinct (map fst (mergeWith (\<lambda>a b. a + b) ?l r))"
    and s: "set (map fst (mergeWith (\<lambda>a b. a + b) ?l r)) = set (map fst ?l) \<union> set (map fst r)"
    and o: "\<And>v. occurrences (mergeWith (\<lambda>a b. a + b) ?l r) v = occurrences ?l v + occurrences r v"
    by blast+
  have ol: "occurrences ?l v = (if v = k then occurrences l k + x else occurrences l v)" for v
    by (simp add: occurrences_def updateWith_map_of)
  have orr: "occurrences (e # r) v = (if v = k then x else occurrences r v)" for v
    by (simp add: occurrences_def e)
  have "occurrences (mergeWith (\<lambda>a b. a + b) ?l r) v = occurrences l v + occurrences (e # r) v" for v
    using o [of v] ol [of v] orr [of v] occurrences_absent [OF kr] by simp
  moreover have "set (map fst ?l) \<union> set (map fst r) = set (map fst l) \<union> set (map fst (e # r))"
    using updateWith_keys [of "\<lambda>a b. a + b" l k x] e by auto
  ultimately show ?case using d s step by simp
qed

lemma foldl_mergeWith_result:
  assumes "distinct (map fst h)" and "\<forall>r\<in>set hs. distinct (map fst r)"
  shows "distinct (map fst (foldl (mergeWith (\<lambda>a b. a + b)) h hs)) \<and>
         set (map fst (foldl (mergeWith (\<lambda>a b. a + b)) h hs)) = set (map fst h) \<union> (\<Union>r\<in>set hs. set (map fst r)) \<and>
         (\<forall>v. occurrences (foldl (mergeWith (\<lambda>a b. a + b)) h hs) v
               = occurrences h v + sum_list (map (\<lambda>r. occurrences r v) hs))"
  using assms
proof (induction hs arbitrary: h)
  case Nil
  then show ?case by simp
next
  case (Cons r hs)
  let ?h = "mergeWith (\<lambda>a b. a + b) h r"
  from Cons.prems have dr: "distinct (map fst r)" and dhs: "\<forall>r\<in>set hs. distinct (map fst r)" by simp_all
  from mergeWith_result [OF Cons.prems(1) dr] have
    d: "distinct (map fst ?h)"
    and s: "set (map fst ?h) = set (map fst h) \<union> set (map fst r)"
    and o: "\<And>v. occurrences ?h v = occurrences h v + occurrences r v"
    by blast+
  from Cons.IH [OF d dhs] have
    d': "distinct (map fst (foldl (mergeWith (\<lambda>a b. a + b)) ?h hs))"
    and s': "set (map fst (foldl (mergeWith (\<lambda>a b. a + b)) ?h hs)) = set (map fst ?h) \<union> (\<Union>r\<in>set hs. set (map fst r))"
    and o': "\<And>v. occurrences (foldl (mergeWith (\<lambda>a b. a + b)) ?h hs) v
               = occurrences ?h v + sum_list (map (\<lambda>r. occurrences r v) hs)"
    by blast+
  have "set (map fst ?h) \<union> (\<Union>r\<in>set hs. set (map fst r)) = set (map fst h) \<union> (\<Union>r\<in>set (r # hs). set (map fst r))"
    using s by auto
  with d' s' o' o show ?case by (simp add: add.assoc)
qed

lemma definedAll_Some: "definedAll (map Some xs) = Inr xs"
  by (induction xs) simp_all

lemma resultTypeOf_enums:
  "resultTypeOf names (map (\<lambda>h. TString (Some h)) (h # hs)) =
     Inr (GetStringType names (foldl (mergeWith (\<lambda>a b. numberAdd a b)) h hs))"
proof -
  have "map enumCases (map (\<lambda>h. TString (Some h)) (h # hs)) = map Some (h # hs)"
    by simp
  then have d: "definedAll (map enumCases (map (\<lambda>h. TString (Some h)) (h # hs))) = Inr (h # hs)"
    by (simp only: definedAll_Some)
  have s: "list_all isStringType (map (\<lambda>h. TString (Some h)) (h # hs))"
    by (simp add: list_all_iff)
  have e: "list_all (\<lambda>t. enumCases t \<noteq> None) (map (\<lambda>h. TString (Some h)) (h # hs))"
    by (simp add: list_all_iff)
  show ?thesis
    unfolding resultTypeOf_def using d s e by simp
qed

lemma roundToDouble_exact: "n \<le> 2 ^ 53 \<Longrightarrow> roundToDouble n = Num n"
  unfolding roundToDouble_def by (simp only: if_True)

lemma numberAdd_exact: "a + b \<le> 2 ^ 53 \<Longrightarrow> numberAdd (Num a) (Num b) = Num (a + b)"
  using roundToDouble_exact [of "a + b"] by (simp only: numberAdd.simps)

lemma countsOf_keys: "map fst (countsOf h) = map fst h"
  by (induction h) (auto simp: countsOf_def)

lemma updateWith_countsOf:
  "occurrences m k + v \<le> 2 ^ 53 \<Longrightarrow>
   updateWith (\<lambda>a b. numberAdd a b) (countsOf m) (k, Num v) = countsOf (updateWith (\<lambda>a b. a + b) m (k, v))"
proof (induction m)
  case Nil
  then show ?case by (simp add: countsOf_def)
next
  case (Cons e m)
  obtain k' x where e: "e = (k', x)" by (cases e)
  show ?case
  proof (cases "k' = k")
    case True
    with Cons.prems e have "x + v \<le> 2 ^ 53" by (simp add: occurrences_def)
    then have "numberAdd (Num x) (Num v) = Num (x + v)" by (rule numberAdd_exact)
    with True e show ?thesis by (simp add: countsOf_def del: numberAdd.simps)
  next
    case False
    with Cons.prems e have "occurrences m k + v \<le> 2 ^ 53" by (simp add: occurrences_def)
    from Cons.IH [OF this] False e show ?thesis by (simp add: countsOf_def)
  qed
qed

lemma mergeWith_countsOf:
  assumes "distinct (map fst r)" and "\<forall>v. occurrences l v + occurrences r v \<le> 2 ^ 53"
  shows "mergeWith (\<lambda>a b. numberAdd a b) (countsOf l) (countsOf r) = countsOf (mergeWith (\<lambda>a b. a + b) l r)"
  using assms
proof (induction r arbitrary: l)
  case Nil
  then show ?case by (simp add: mergeWith_def countsOf_def)
next
  case (Cons e r)
  obtain k x where e: "e = (k, x)" by (cases e)
  let ?l = "updateWith (\<lambda>a b. a + b) l (k, x)"
  from Cons.prems(1) e have dr: "distinct (map fst r)" and kr: "k \<notin> set (map fst r)" by auto
  have orr: "occurrences (e # r) v = (if v = k then x else occurrences r v)" for v
    by (simp add: occurrences_def e)
  from Cons.prems(2) orr [of k] have b: "occurrences l k + x \<le> 2 ^ 53" by (metis (full_types))
  have ol: "occurrences ?l v = (if v = k then occurrences l k + x else occurrences l v)" for v
    by (simp add: occurrences_def updateWith_map_of)
  have "occurrences ?l v + occurrences r v \<le> 2 ^ 53" for v
    using Cons.prems(2) [rule_format, of v] ol [of v] orr [of v] occurrences_absent [OF kr] by (cases "v = k") simp_all
  then have "\<forall>v. occurrences ?l v + occurrences r v \<le> 2 ^ 53" by blast
  from Cons.IH [OF dr this] updateWith_countsOf [OF b] e show ?case
    by (simp add: mergeWith_def countsOf_def)
qed

lemma foldl_mergeWith_countsOf:
  assumes "distinct (map fst h)" and "\<forall>r\<in>set hs. distinct (map fst r)"
    and "\<forall>v. occurrences h v + sum_list (map (\<lambda>r. occurrences r v) hs) \<le> 2 ^ 53"
  shows "foldl (mergeWith (\<lambda>a b. numberAdd a b)) (countsOf h) (map countsOf hs)
         = countsOf (foldl (mergeWith (\<lambda>a b. a + b)) h hs)"
  using assms
proof (induction hs arbitrary: h)
  case Nil
  then show ?case by simp
next
  case (Cons r hs)
  let ?h = "mergeWith (\<lambda>a b. a + b) h r"
  from Cons.prems have dr: "distinct (map fst r)" and dhs: "\<forall>r\<in>set hs. distinct (map fst r)" by simp_all
  from mergeWith_result [OF Cons.prems(1) dr] have
    d: "distinct (map fst ?h)"
    and o: "\<And>v. occurrences ?h v = occurrences h v + occurrences r v"
    by blast+
  have b1: "\<forall>v. occurrences h v + occurrences r v \<le> 2 ^ 53"
  proof
    fix v
    from Cons.prems(3) have "occurrences h v + sum_list (map (\<lambda>r. occurrences r v) (r # hs)) \<le> 2 ^ 53"
      by blast
    then show "occurrences h v + occurrences r v \<le> 2 ^ 53" by simp
  qed
  have b2: "\<forall>v. occurrences ?h v + sum_list (map (\<lambda>r. occurrences r v) hs) \<le> 2 ^ 53"
  proof
    fix v
    from Cons.prems(3) have "occurrences h v + sum_list (map (\<lambda>r. occurrences r v) (r # hs)) \<le> 2 ^ 53"
      by blast
    then show "occurrences ?h v + sum_list (map (\<lambda>r. occurrences r v) hs) \<le> 2 ^ 53"
      by (simp add: o add.assoc)
  qed
  from Cons.IH [OF d dhs b2] mergeWith_countsOf [OF dr b1] show ?case by simp
qed

text \<open>
  Beyond the bound the sum is rounded: \<open>2^53 + 1\<close> is not a double, and the merged
  count is \<open>2^53\<close>.
\<close>

lemma counts_beyond_bound_are_rounded:
  "makePropertyType names
     [TString (Some [(''x'', Num (2 ^ 53))]), TString (Some [(''x'', Num 1)])] False
   = Inr (GetStringType names [(''x'', Num (2 ^ 53))])"
  by (simp add: makePropertyType_def resultTypeOf_def mergeWith_def roundToDouble_def)

section \<open>The claims\<close>

text \<open>
  C1 (as amended). For record types with unique field names, \<^verbatim>\<open>canBeCombined(a, b)\<close>
  returns what \<^verbatim>\<open>canBeCombined(b, a)\<close> returns whenever the two field mappings differ
  in size, and also when they have equal size provided every field type of both records
  has at most one non-null member of each kind.
\<close>

theorem canBeCombined_commutative:
  assumes "uniqueFieldNames a" and "uniqueFieldNames b"
    and "length (properties a) \<noteq> length (properties b) \<or> (oneTypePerKind a \<and> oneTypePerKind b)"
  shows "canBeCombined a b = canBeCombined b a"
proof (cases "length (properties a) = length (properties b)")
  case False
  then show ?thesis by (rule canBeCombined_differ)
next
  case True
  with assms(3) have k: "oneTypePerKind a" "oneTypePerKind b" by simp_all
  have "canBeCombined a b = Inr True \<longleftrightarrow> canBeCombined b a = Inr True"
    using canBeCombined_tie_imp [OF assms(1,2) True k]
          canBeCombined_tie_imp [OF assms(2,1) True [symmetric] k(2,1)] by blast
  moreover obtain r1 r2 where "canBeCombined a b = Inr r1" "canBeCombined b a = Inr r2"
    using canBeCombined_total by blast
  ultimately show ?thesis by auto
qed

text \<open>
  The theorem at two records of two fields each, one with a nullable plain string and the
  other with an enumerated string under the same name.
\<close>

theorem canBeCombined_commutative_witness:
  "uniqueFieldNames \<lparr>typeRef = 1, properties = [(''x'', TUnion [TString None, TNull]), (''y'', TInteger)], isFixed = False, getNames = []\<rparr> \<and>
   uniqueFieldNames \<lparr>typeRef = 2, properties = [(''y'', TInteger), (''x'', TString (Some [(''a'', Num 1)]))], isFixed = False, getNames = []\<rparr> \<and>
   oneTypePerKind \<lparr>typeRef = 1, properties = [(''x'', TUnion [TString None, TNull]), (''y'', TInteger)], isFixed = False, getNames = []\<rparr> \<and>
   oneTypePerKind \<lparr>typeRef = 2, properties = [(''y'', TInteger), (''x'', TString (Some [(''a'', Num 1)]))], isFixed = False, getNames = []\<rparr> \<and>
   canBeCombined
     \<lparr>typeRef = 1, properties = [(''x'', TUnion [TString None, TNull]), (''y'', TInteger)], isFixed = False, getNames = []\<rparr>
     \<lparr>typeRef = 2, properties = [(''y'', TInteger), (''x'', TString (Some [(''a'', Num 1)]))], isFixed = False, getNames = []\<rparr>
   = Inr True \<and>
   canBeCombined
     \<lparr>typeRef = 2, properties = [(''y'', TInteger), (''x'', TString (Some [(''a'', Num 1)]))], isFixed = False, getNames = []\<rparr>
     \<lparr>typeRef = 1, properties = [(''x'', TUnion [TString None, TNull]), (''y'', TInteger)], isFixed = False, getNames = []\<rparr>
   = Inr True"
proof -
  let ?a = "\<lparr>typeRef = 1, properties = [(''x'', TUnion [TString None, TNull]), (''y'', TInteger)], isFixed = False, getNames = []\<rparr>"
  let ?b = "\<lparr>typeRef = 2, properties = [(''y'', TInteger), (''x'', TString (Some [(''a'', Num 1)]))], isFixed = False, getNames = []\<rparr>"
  have ua: "uniqueFieldNames ?a" and ub: "uniqueFieldNames ?b"
    by (simp_all add: uniqueFieldNames_def)
  have ka: "oneTypePerKind ?a" and kb: "oneTypePerKind ?b"
    by (simp_all add: oneTypePerKind_def OrderedSet_def)
  have run: "canBeCombined ?a ?b = Inr True" by code_simp
  from canBeCombined_commutative [OF ua ub] ka kb have "canBeCombined ?a ?b = canBeCombined ?b ?a"
    by blast
  with run ua ub ka kb show ?thesis by simp
qed

text \<open>
  C1 as stated fails on a tie. Both records have the single field \<open>f\<close>; in the first it
  is a union of two string types, in the second a union of a string and an integer. On a
  tie the first argument is \<^verbatim>\<open>smaller\<close> and its members are the ones looked up in the
  index of the other side: both strings of the first record find the string of the
  second, but the integer of the second record finds nothing in the first.
\<close>

theorem canBeCombined_not_commutative:
  "uniqueFieldNames \<lparr>typeRef = 1, properties = [(''f'', TUnion [TString None, TString (Some [(''a'', Num 1)])])], isFixed = False, getNames = []\<rparr> \<and>
   uniqueFieldNames \<lparr>typeRef = 2, properties = [(''f'', TUnion [TString None, TInteger])], isFixed = False, getNames = []\<rparr> \<and>
   canBeCombined
     \<lparr>typeRef = 1, properties = [(''f'', TUnion [TString None, TString (Some [(''a'', Num 1)])])], isFixed = False, getNames = []\<rparr>
     \<lparr>typeRef = 2, properties = [(''f'', TUnion [TString None, TInteger])], isFixed = False, getNames = []\<rparr>
   = Inr True \<and>
   canBeCombined
     \<lparr>typeRef = 2, properties = [(''f'', TUnion [TString None, TInteger])], isFixed = False, getNames = []\<rparr>
     \<lparr>typeRef = 1, properties = [(''f'', TUnion [TString None, TString (Some [(''a'', Num 1)])])], isFixed = False, getNames = []\<rparr>
   = Inr False"
proof (intro conjI)
  show "canBeCombined
     \<lparr>typeRef = 1, properties = [(''f'', TUnion [TString None, TString (Some [(''a'', Num 1)])])], isFixed = False, getNames = []\<rparr>
     \<lparr>typeRef = 2, properties = [(''f'', TUnion [TString None, TInteger])], isFixed = False, getNames = []\<rparr>
   = Inr True" by code_simp
  show "canBeCombined
     \<lparr>typeRef = 2, properties = [(''f'', TUnion [TString None, TInteger])], isFixed = False, getNames = []\<rparr>
     \<lparr>typeRef = 1, properties = [(''f'', TUnion [TString None, TString (Some [(''a'', Num 1)])])], isFixed = False, getNames = []\<rparr>
   = Inr False" by code_simp
qed (simp_all add: uniqueFieldNames_def)

text \<open>
  C2 (as amended). \<^verbatim>\<open>typeSetsCanBeCombined(s1, s2)\<close> returns true if and only if the two
  sets have equal size and every member of \<open>s1\<close> finds, under its kind in the index of
  \<open>s2\<close>, a member that is equal to it or, both being strings, differs from it. The index
  keeps for each kind the last member of \<open>s2\<close> of that kind. When \<open>s2\<close> has at most one
  member of each kind, the indexed member is any same-kind member of \<open>s2\<close>, which is the
  claim as it was stated.
\<close>

theorem typeSetsCanBeCombined_indexed:
  "(typeSetsCanBeCombined s1 s2 \<longleftrightarrow>
      length s1 = length s2 \<and>
      (\<forall>t\<in>set s1. \<exists>other. find (\<lambda>u. kind u = kind t) (rev s2) = Some other \<and>
         (t = other \<or> (kind t = ''string'' \<and> kind other = ''string''))))
   \<and> (distinct (map kind s2) \<longrightarrow>
        (typeSetsCanBeCombined s1 s2 \<longleftrightarrow>
           length s1 = length s2 \<and>
           (\<forall>t\<in>set s1. \<exists>other\<in>set s2. kind other = kind t \<and>
              (t = other \<or> (kind t = ''string'' \<and> kind other = ''string'')))))"
proof (intro conjI impI)
  have same: "kind other = kind t" if "find (\<lambda>u. kind u = kind t) (rev s2) = Some other" for t other
    using find_mem [OF that] by simp
  have "(\<exists>other. find (\<lambda>u. kind u = kind t) (rev s2) = Some other \<and> (t = other \<or> kind t = ''string''))
      \<longleftrightarrow> (\<exists>other. find (\<lambda>u. kind u = kind t) (rev s2) = Some other \<and>
             (t = other \<or> (kind t = ''string'' \<and> kind other = ''string'')))" for t
    using same by metis
  then show "typeSetsCanBeCombined s1 s2 \<longleftrightarrow>
      length s1 = length s2 \<and>
      (\<forall>t\<in>set s1. \<exists>other. find (\<lambda>u. kind u = kind t) (rev s2) = Some other \<and>
         (t = other \<or> (kind t = ''string'' \<and> kind other = ''string'')))"
    unfolding typeSetsCanBeCombined_find by simp
next
  assume d: "distinct (map kind s2)"
  have "(\<exists>other\<in>set s2. kind other = kind t \<and> (t = other \<or> kind t = ''string''))
      \<longleftrightarrow> (\<exists>other\<in>set s2. kind other = kind t \<and>
             (t = other \<or> (kind t = ''string'' \<and> kind other = ''string'')))" for t
    by metis
  then show "typeSetsCanBeCombined s1 s2 \<longleftrightarrow>
      length s1 = length s2 \<and>
      (\<forall>t\<in>set s1. \<exists>other\<in>set s2. kind other = kind t \<and>
         (t = other \<or> (kind t = ''string'' \<and> kind other = ''string'')))"
    unfolding typeSetsCanBeCombined_distinct [OF d] by simp
qed

text \<open>
  The theorem at a set of an integer and a plain string against a set of an integer and
  an enumerated string.
\<close>

theorem typeSetsCanBeCombined_indexed_witness:
  "distinct (map kind [TInteger, TString (Some [(''a'', Num 1)])]) \<and>
   typeSetsCanBeCombined [TString None, TInteger] [TInteger, TString (Some [(''a'', Num 1)])] \<and>
   (typeSetsCanBeCombined [TString None, TInteger] [TInteger, TString (Some [(''a'', Num 1)])] \<longleftrightarrow>
      length [TString None, TInteger] = length [TInteger, TString (Some [(''a'', Num 1)])] \<and>
      (\<forall>t\<in>set [TString None, TInteger].
         \<exists>other\<in>set [TInteger, TString (Some [(''a'', Num 1)])]. kind other = kind t \<and>
           (t = other \<or> (kind t = ''string'' \<and> kind other = ''string''))))"
proof -
  have d: "distinct (map kind [TInteger, TString (Some [(''a'', Num 1)])])" by simp
  have c: "typeSetsCanBeCombined [TString None, TInteger] [TInteger, TString (Some [(''a'', Num 1)])]"
    by (simp add: typeSetsCanBeCombined_def MapOfEntries_def)
  from typeSetsCanBeCombined_indexed
    [of "[TString None, TInteger]" "[TInteger, TString (Some [(''a'', Num 1)])]"] d c
  show ?thesis by blast
qed

text \<open>
  C2 as stated fails where a set holds two members of one kind that is not string: the
  set of the two array types is not combinable with itself, although each member has an
  equal counterpart.
\<close>

theorem typeSetsCanBeCombined_same_kind_twice:
  "\<not> (typeSetsCanBeCombined [TArray TBool, TArray TInteger] [TArray TBool, TArray TInteger] \<longleftrightarrow>
        length [TArray TBool, TArray TInteger] = length [TArray TBool, TArray TInteger] \<and>
        (\<forall>t\<in>set [TArray TBool, TArray TInteger].
           \<exists>other\<in>set [TArray TBool, TArray TInteger]. kind other = kind t \<and>
             (t = other \<or> (kind t = ''string'' \<and> kind other = ''string''))))"
  by (simp add: typeSetsCanBeCombined_def MapOfEntries_def)



text \<open>
  C4. Whenever the sizes of two field mappings pass the size-ratio gate (the smaller size
  is at least 0.75 times the larger), \<open>maxFaults = smaller.size - ceil(larger.size * 0.75)\<close>
  is not negative; and \<^verbatim>\<open>canBeCombined\<close> never fails with the assertion
  \<^verbatim>\<open>Max faults negative\<close>.
\<close>

theorem maxFaults_not_negative:
  "((of_nat (length (smallerOf p1 p2)) :: rat) \<ge> of_nat (length (largerOf p1 p2)) * REQUIRED_OVERLAP
      \<longrightarrow> 0 \<le> maxFaults (largerOf p1 p2) (smallerOf p1 p2))
   \<and> canBeCombined c1 c2 \<noteq> Inl MaxFaultsNegative"
proof
  show "(of_nat (length (smallerOf p1 p2)) :: rat) \<ge> of_nat (length (largerOf p1 p2)) * REQUIRED_OVERLAP
      \<longrightarrow> 0 \<le> maxFaults (largerOf p1 p2) (smallerOf p1 p2)"
    using maxFaults_nonneg [of p1 p2] by (simp add: sizeGate_smaller)
next
  from canBeCombined_total [of c1 c2] show "canBeCombined c1 c2 \<noteq> Inl MaxFaultsNegative"
    by auto
qed

text \<open>The theorem at the sizes 4 and 3, where the budget is exactly 0.\<close>

theorem maxFaults_not_negative_witness:
  "(of_nat (length (smallerOf [(''w'', TBool), (''x'', TBool), (''y'', TBool), (''z'', TBool)]
                              [(''x'', TBool), (''y'', TBool), (''z'', TBool)])) :: rat)
     \<ge> of_nat (length (largerOf [(''w'', TBool), (''x'', TBool), (''y'', TBool), (''z'', TBool)]
                              [(''x'', TBool), (''y'', TBool), (''z'', TBool)])) * REQUIRED_OVERLAP
   \<and> 0 \<le> maxFaults (largerOf [(''w'', TBool), (''x'', TBool), (''y'', TBool), (''z'', TBool)]
                              [(''x'', TBool), (''y'', TBool), (''z'', TBool)])
                    (smallerOf [(''w'', TBool), (''x'', TBool), (''y'', TBool), (''z'', TBool)]
                               [(''x'', TBool), (''y'', TBool), (''z'', TBool)])
   \<and> maxFaults (largerOf [(''w'', TBool), (''x'', TBool), (''y'', TBool), (''z'', TBool)]
                              [(''x'', TBool), (''y'', TBool), (''z'', TBool)])
                    (smallerOf [(''w'', TBool), (''x'', TBool), (''y'', TBool), (''z'', TBool)]
                               [(''x'', TBool), (''y'', TBool), (''z'', TBool)]) = 0"
proof -
  let ?p1 = "[(''w'', TBool), (''x'', TBool), (''y'', TBool), (''z'', TBool)]"
  let ?p2 = "[(''x'', TBool), (''y'', TBool), (''z'', TBool)]"
  have gate: "(of_nat (length (smallerOf ?p1 ?p2)) :: rat)
     \<ge> of_nat (length (largerOf ?p1 ?p2)) * REQUIRED_OVERLAP"
    by (simp add: smallerOf_def largerOf_def REQUIRED_OVERLAP_def)
  have val: "maxFaults (largerOf ?p1 ?p2) (smallerOf ?p1 ?p2) = 0"
    by (simp add: smallerOf_def largerOf_def maxFaults_def minOverlap_def REQUIRED_OVERLAP_def)
  from maxFaults_not_negative [of ?p1 ?p2] gate val show ?thesis by blast
qed

text \<open>
  C5 (as amended). The clique builder returns on every input list, every clique it emits
  has at least 2 members, and every member of an emitted clique satisfies
  \<^verbatim>\<open>canBeCombined(member, earlier)\<close> with each member admitted before it; no transitivity
  is used. When all input records have unique field names and field types with at most
  one non-null member of each kind, every pair of distinct members satisfies
  \<^verbatim>\<open>canBeCombined\<close> in both orders.
\<close>

theorem cliques_admitted_in_order:
  "\<exists>cliques. buildCliques cs [] = Inr cliques \<and>
     (\<forall>q\<in>set cliques. 2 \<le> length q \<and>
        (\<forall>j<length q. \<forall>i<j. canBeCombined (q ! j) (q ! i) = Inr True)) \<and>
     ((\<forall>c\<in>set cs. uniqueFieldNames c \<and> oneTypePerKind c) \<longrightarrow>
        (\<forall>q\<in>set cliques. \<forall>x\<in>set q. \<forall>y\<in>set q. x \<noteq> y \<longrightarrow> canBeCombined x y = Inr True))"
proof -
  from buildCliques_result [of cs "[]"] obtain cliques where
    run: "buildCliques cs [] = Inr cliques"
    and ord: "\<forall>q\<in>set cliques. 2 \<le> length q \<and> admittedInOrder q"
    and sub: "set (concat cliques) \<subseteq> set cs"
    by auto
  have both: "canBeCombined x y = Inr True"
    if wf: "\<forall>c\<in>set cs. uniqueFieldNames c \<and> oneTypePerKind c"
      and q: "q \<in> set cliques" and x: "x \<in> set q" and y: "y \<in> set q" and ne: "x \<noteq> y"
    for q x y
  proof -
    from q x y sub have "x \<in> set cs" "y \<in> set cs" by auto
    with wf have wx: "uniqueFieldNames x" "oneTypePerKind x"
      and wy: "uniqueFieldNames y" "oneTypePerKind y" by simp_all
    from x y obtain i j where i: "i < length q" "q ! i = x" and j: "j < length q" "q ! j = y"
      by (auto simp: in_set_conv_nth)
    from ne i j have "i \<noteq> j" by auto
    then consider "i < j" | "j < i" by linarith
    then show ?thesis
    proof cases
      case 1
      with ord q i j have "canBeCombined y x = Inr True" by (auto simp: admittedInOrder_def)
      from canBeCombined_true_commute [OF wy(1) wx(1) wy(2) wx(2) this] show ?thesis .
    next
      case 2
      with ord q i j show ?thesis by (auto simp: admittedInOrder_def)
    qed
  qed
  from run ord both show ?thesis unfolding admittedInOrder_def by blast
qed

text \<open>
  The theorem at three records, of which the first and the third end in one clique.
\<close>

theorem cliques_admitted_in_order_witness:
  "buildCliques
     [\<lparr>typeRef = 1, properties = [(''x'', TInteger), (''y'', TString None)], isFixed = False, getNames = []\<rparr>,
      \<lparr>typeRef = 2, properties = [(''p'', TBool)], isFixed = False, getNames = []\<rparr>,
      \<lparr>typeRef = 3, properties = [(''x'', TInteger), (''y'', TString (Some [(''a'', Num 1)]))], isFixed = False, getNames = []\<rparr>] []
   = Inr [[\<lparr>typeRef = 1, properties = [(''x'', TInteger), (''y'', TString None)], isFixed = False, getNames = []\<rparr>,
           \<lparr>typeRef = 3, properties = [(''x'', TInteger), (''y'', TString (Some [(''a'', Num 1)]))], isFixed = False, getNames = []\<rparr>]] \<and>
   canBeCombined
     \<lparr>typeRef = 3, properties = [(''x'', TInteger), (''y'', TString (Some [(''a'', Num 1)]))], isFixed = False, getNames = []\<rparr>
     \<lparr>typeRef = 1, properties = [(''x'', TInteger), (''y'', TString None)], isFixed = False, getNames = []\<rparr>
   = Inr True \<and>
   canBeCombined
     \<lparr>typeRef = 1, properties = [(''x'', TInteger), (''y'', TString None)], isFixed = False, getNames = []\<rparr>
     \<lparr>typeRef = 3, properties = [(''x'', TInteger), (''y'', TString (Some [(''a'', Num 1)]))], isFixed = False, getNames = []\<rparr>
   = Inr True"
proof -
  let ?A = "\<lparr>typeRef = 1, properties = [(''x'', TInteger), (''y'', TString None)], isFixed = False, getNames = []\<rparr>"
  let ?B = "\<lparr>typeRef = 2, properties = [(''p'', TBool)], isFixed = False, getNames = []\<rparr>"
  let ?C = "\<lparr>typeRef = 3, properties = [(''x'', TInteger), (''y'', TString (Some [(''a'', Num 1)]))], isFixed = False, getNames = []\<rparr>"
  have run: "buildCliques [?A, ?B, ?C] [] = Inr [[?A, ?C]]" by code_simp
  have wf: "\<forall>c\<in>set [?A, ?B, ?C]. uniqueFieldNames c \<and> oneTypePerKind c"
    by (simp add: uniqueFieldNames_def oneTypePerKind_def)
  from cliques_admitted_in_order [of "[?A, ?B, ?C]"] run wf
  have "\<forall>x\<in>set [?A, ?C]. \<forall>y\<in>set [?A, ?C]. x \<noteq> y \<longrightarrow> canBeCombined x y = Inr True"
    by auto
  then have "canBeCombined ?C ?A = Inr True \<and> canBeCombined ?A ?C = Inr True" by simp
  with run show ?thesis by simp
qed

text \<open>
  C5 as stated fails for the pair taken in the order that was not tested. With the two
  records on which \<^verbatim>\<open>canBeCombined\<close> is not symmetric, the candidate is admitted by
  \<^verbatim>\<open>canBeCombined(candidate, seed)\<close>, while \<^verbatim>\<open>canBeCombined(seed, candidate)\<close> is
  false.
\<close>

theorem clique_member_not_combinable:
  "buildCliques
     [\<lparr>typeRef = 2, properties = [(''f'', TUnion [TString None, TInteger])], isFixed = False, getNames = []\<rparr>,
      \<lparr>typeRef = 1, properties = [(''f'', TUnion [TString None, TString (Some [(''a'', Num 1)])])], isFixed = False, getNames = []\<rparr>] []
   = Inr [[\<lparr>typeRef = 2, properties = [(''f'', TUnion [TString None, TInteger])], isFixed = False, getNames = []\<rparr>,
           \<lparr>typeRef = 1, properties = [(''f'', TUnion [TString None, TString (Some [(''a'', Num 1)])])], isFixed = False, getNames = []\<rparr>]] \<and>
   canBeCombined
     \<lparr>typeRef = 2, properties = [(''f'', TUnion [TString None, TInteger])], isFixed = False, getNames = []\<rparr>
     \<lparr>typeRef = 1, properties = [(''f'', TUnion [TString None, TString (Some [(''a'', Num 1)])])], isFixed = False, getNames = []\<rparr>
   = Inr False"
proof
  show "buildCliques
     [\<lparr>typeRef = 2, properties = [(''f'', TUnion [TString None, TInteger])], isFixed = False, getNames = []\<rparr>,
      \<lparr>typeRef = 1, properties = [(''f'', TUnion [TString None, TString (Some [(''a'', Num 1)])])], isFixed = False, getNames = []\<rparr>] []
   = Inr [[\<lparr>typeRef = 2, properties = [(''f'', TUnion [TString None, TInteger])], isFixed = False, getNames = []\<rparr>,
           \<lparr>typeRef = 1, properties = [(''f'', TUnion [TString None, TString (Some [(''a'', Num 1)])])], isFixed = False, getNames = []\<rparr>]]"
    by code_simp
  show "canBeCombined
     \<lparr>typeRef = 2, properties = [(''f'', TUnion [TString None, TInteger])], isFixed = False, getNames = []\<rparr>
     \<lparr>typeRef = 1, properties = [(''f'', TUnion [TString None, TString (Some [(''a'', Num 1)])])], isFixed = False, getNames = []\<rparr>
   = Inr False"
    by code_simp
qed

text \<open>
  C6. For every list of record nodes of the graph, \<^verbatim>\<open>combineClasses\<close> computes its
  cliques without failing, no record whose \<^verbatim>\<open>isFixed\<close> flag is set is a member of any
  of them, and the groups that the rewrite replaces are exactly these cliques, whatever
  \<^verbatim>\<open>getCliqueProperties\<close> does.
\<close>

theorem fixed_never_in_clique:
  "\<exists>cliques. cliquesOf classes = Inr cliques \<and>
     (\<forall>q\<in>set cliques. \<forall>c\<in>set q. \<not> isFixed c) \<and>
     (\<forall>replaced. combineClasses getCliqueProperties classes = Inr replaced \<longrightarrow> map fst replaced = cliques)"
proof -
  let ?u = "filter (\<lambda>c. \<not> isFixed c) classes"
  from buildCliques_result [of ?u "[]"] obtain cliques where
    run: "buildCliques ?u [] = Inr cliques"
    and sub: "set (concat cliques) \<subseteq> set ?u"
    by auto
  from run have c: "cliquesOf classes = Inr cliques" by (simp add: cliquesOf_def)
  from sub have nf: "\<forall>q\<in>set cliques. \<forall>c\<in>set q. \<not> isFixed c" by auto
  have "\<forall>replaced. combineClasses getCliqueProperties classes = Inr replaced \<longrightarrow> map fst replaced = cliques"
    using c rewrite_groups by (auto simp: combineClasses_def)
  with c nf show ?thesis by blast
qed

text \<open>
  The theorem at three records of the same shape, the first of them pinned: it can be
  combined with the others, and the only clique holds the other two.
\<close>

theorem fixed_never_in_clique_witness:
  "isFixed \<lparr>typeRef = 1, properties = [(''x'', TInteger)], isFixed = True, getNames = []\<rparr> \<and>
   canBeCombined
     \<lparr>typeRef = 2, properties = [(''x'', TInteger)], isFixed = False, getNames = []\<rparr>
     \<lparr>typeRef = 1, properties = [(''x'', TInteger)], isFixed = True, getNames = []\<rparr> = Inr True \<and>
   cliquesOf
     [\<lparr>typeRef = 1, properties = [(''x'', TInteger)], isFixed = True, getNames = []\<rparr>,
      \<lparr>typeRef = 2, properties = [(''x'', TInteger)], isFixed = False, getNames = []\<rparr>,
      \<lparr>typeRef = 3, properties = [(''x'', TInteger)], isFixed = False, getNames = []\<rparr>]
   = Inr [[\<lparr>typeRef = 2, properties = [(''x'', TInteger)], isFixed = False, getNames = []\<rparr>,
           \<lparr>typeRef = 3, properties = [(''x'', TInteger)], isFixed = False, getNames = []\<rparr>]] \<and>
   map fst (projr (combineClasses (\<lambda>clique mk. Inr [])
     [\<lparr>typeRef = 1, properties = [(''x'', TInteger)], isFixed = True, getNames = []\<rparr>,
      \<lparr>typeRef = 2, properties = [(''x'', TInteger)], isFixed = False, getNames = []\<rparr>,
      \<lparr>typeRef = 3, properties = [(''x'', TInteger)], isFixed = False, getNames = []\<rparr>]))
   = [[\<lparr>typeRef = 2, properties = [(''x'', TInteger)], isFixed = False, getNames = []\<rparr>,
       \<lparr>typeRef = 3, properties = [(''x'', TInteger)], isFixed = False, getNames = []\<rparr>]]"
proof -
  let ?P = "\<lparr>typeRef = 1, properties = [(''x'', TInteger)], isFixed = True, getNames = []\<rparr>"
  let ?A = "\<lparr>typeRef = 2, properties = [(''x'', TInteger)], isFixed = False, getNames = []\<rparr>"
  let ?B = "\<lparr>typeRef = 3, properties = [(''x'', TInteger)], isFixed = False, getNames = []\<rparr>"
  have sim: "canBeCombined ?A ?P = Inr True" by code_simp
  have run: "cliquesOf [?P, ?A, ?B] = Inr [[?A, ?B]]" by code_simp
  have out: "combineClasses (\<lambda>clique mk. Inr []) [?P, ?A, ?B] =
     Inr [([?A, ?B], GetClassType [] [])]"
    by code_simp
  from fixed_never_in_clique [of "[?P, ?A, ?B]" "\<lambda>clique mk. Inr []"] run out
  have "map fst (projr (combineClasses (\<lambda>clique mk. Inr []) [?P, ?A, ?B])) = [[?A, ?B]]"
    by auto
  with sim run show ?thesis by simp
qed

text \<open>
  C7. When every type of a field's type set is a string type with a histogram of
  enumerated values (each histogram a map, its keys unique, its counts natural numbers),
  and for no literal value the counts of all members add up to more than \<open>2^53\<close>,
  \<^verbatim>\<open>makePropertyType\<close> builds one string type with a merged histogram, wrapped as
  nullable when the flag is set; the merged histogram has unique keys and maps each
  literal value that occurs in some member's histogram to the sum of its counts over all
  members' histograms, and no other value. In particular \<open>enum{red:2}\<close> merged with
  \<open>enum{blue:5, red:1}\<close> gives \<open>enum{red:3, blue:5}\<close>.
\<close>

theorem enumerated_strings_merged:
  assumes "hs \<noteq> []" and "\<forall>h\<in>set hs. distinct (map fst h)"
    and "\<forall>v. sum_list (map (\<lambda>h. case map_of h v of None \<Rightarrow> 0 | Some c \<Rightarrow> c) hs) \<le> 2 ^ 53"
  shows "(\<exists>mergedCases.
            makePropertyType names (map (\<lambda>h. TString (Some (countsOf h))) hs) False
              = Inr (GetStringType names (countsOf mergedCases)) \<and>
            makePropertyType names (map (\<lambda>h. TString (Some (countsOf h))) hs) True
              = Inr (MakeNullable (GetStringType names (countsOf mergedCases)) names) \<and>
            distinct (map fst mergedCases) \<and>
            (\<forall>v. map_of mergedCases v =
               (if \<exists>h\<in>set hs. v \<in> fst ` set h
                then Some (sum_list (map (\<lambda>h. case map_of h v of None \<Rightarrow> 0 | Some c \<Rightarrow> c) hs))
                else None)))
         \<and> makePropertyType names
              [TString (Some [(''red'', Num 2)]), TString (Some [(''blue'', Num 5), (''red'', Num 1)])] False
             = Inr (GetStringType names [(''red'', Num 3), (''blue'', Num 5)])"
proof
  from assms(1) obtain h rest where hs: "hs = h # rest" by (cases hs) auto
  let ?m = "foldl (mergeWith (\<lambda>a b. a + b)) h rest"
  from assms(2) hs have dh: "distinct (map fst h)" and dr: "\<forall>r\<in>set rest. distinct (map fst r)"
    by simp_all
  have bound: "\<forall>v. occurrences h v + sum_list (map (\<lambda>r. occurrences r v) rest) \<le> 2 ^ 53"
  proof
    fix v
    from assms(3) have "sum_list (map (\<lambda>h. case map_of h v of None \<Rightarrow> 0 | Some c \<Rightarrow> c) hs) \<le> 2 ^ 53"
      by blast
    then show "occurrences h v + sum_list (map (\<lambda>r. occurrences r v) rest) \<le> 2 ^ 53"
      unfolding hs occurrences_def by simp
  qed
  have "map (\<lambda>h. TString (Some (countsOf h))) hs
        = map (\<lambda>g. TString (Some g)) (countsOf h # map countsOf rest)"
    by (simp add: hs)
  then have "resultTypeOf names (map (\<lambda>h. TString (Some (countsOf h))) hs)
        = Inr (GetStringType names
            (foldl (mergeWith (\<lambda>a b. numberAdd a b)) (countsOf h) (map countsOf rest)))"
    by (simp only: resultTypeOf_enums)
  then have r: "resultTypeOf names (map (\<lambda>h. TString (Some (countsOf h))) hs)
        = Inr (GetStringType names (countsOf ?m))"
    by (simp only: foldl_mergeWith_countsOf [OF dh dr bound])
  from foldl_mergeWith_result [OF dh dr] have
    d: "distinct (map fst ?m)"
    and s: "set (map fst ?m) = set (map fst h) \<union> (\<Union>r\<in>set rest. set (map fst r))"
    and o: "\<And>v. occurrences ?m v = occurrences h v + sum_list (map (\<lambda>r. occurrences r v) rest)"
    by blast+
  have look: "map_of ?m v =
               (if \<exists>h\<in>set hs. v \<in> fst ` set h
                then Some (sum_list (map (\<lambda>h. case map_of h v of None \<Rightarrow> 0 | Some c \<Rightarrow> c) hs))
                else None)" for v
  proof (cases "v \<in> set (map fst ?m)")
    case True
    then obtain c where c: "map_of ?m v = Some c"
      by (cases "map_of ?m v") (auto simp: map_of_eq_None_iff)
    then have "occurrences ?m v = c" by (simp add: occurrences_def)
    with o [of v] have "c = sum_list (map (\<lambda>h. occurrences h v) hs)" by (simp add: hs)
    moreover from True s have "\<exists>h\<in>set hs. v \<in> fst ` set h" by (auto simp: hs)
    ultimately show ?thesis using c by (simp add: occurrences_def)
  next
    case False
    then have "map_of ?m v = None" by (simp add: map_of_eq_None_iff)
    moreover from False s have "\<not> (\<exists>h\<in>set hs. v \<in> fst ` set h)" by (auto simp: hs)
    ultimately show ?thesis by simp
  qed
  have "makePropertyType names (map (\<lambda>h. TString (Some (countsOf h))) hs) False
          = Inr (GetStringType names (countsOf ?m))"
    and "makePropertyType names (map (\<lambda>h. TString (Some (countsOf h))) hs) True
          = Inr (MakeNullable (GetStringType names (countsOf ?m)) names)"
    using r by (simp_all add: makePropertyType_def)
  with d look show "\<exists>mergedCases.
            makePropertyType names (map (\<lambda>h. TString (Some (countsOf h))) hs) False
              = Inr (GetStringType names (countsOf mergedCases)) \<and>
            makePropertyType names (map (\<lambda>h. TString (Some (countsOf h))) hs) True
              = Inr (MakeNullable (GetStringType names (countsOf mergedCases)) names) \<and>
            distinct (map fst mergedCases) \<and>
            (\<forall>v. map_of mergedCases v =
               (if \<exists>h\<in>set hs. v \<in> fst ` set h
                then Some (sum_list (map (\<lambda>h. case map_of h v of None \<Rightarrow> 0 | Some c \<Rightarrow> c) hs))
                else None))"
    by blast
next
  show "makePropertyType names
              [TString (Some [(''red'', Num 2)]), TString (Some [(''blue'', Num 5), (''red'', Num 1)])] False
             = Inr (GetStringType names [(''red'', Num 3), (''blue'', Num 5)])"
    by (simp add: makePropertyType_def resultTypeOf_def mergeWith_def roundToDouble_def)
qed

text \<open>The theorem at the two histograms of the example, for a nullable field.\<close>

theorem enumerated_strings_merged_witness:
  "[[(''red'', 2)], [(''blue'', 5), (''red'', 1::nat)]] \<noteq> [] \<and>
   distinct (map fst [(''red'', 2::nat)]) \<and> distinct (map fst [(''blue'', 5), (''red'', 1::nat)]) \<and>
   sum_list (map (\<lambda>h. case map_of h ''red'' of None \<Rightarrow> 0 | Some c \<Rightarrow> c)
     [[(''red'', 2)], [(''blue'', 5), (''red'', 1::nat)]]) = 3 \<and>
   makePropertyType [''color'']
     (map (\<lambda>h. TString (Some (countsOf h))) [[(''red'', 2)], [(''blue'', 5), (''red'', 1)]]) True
   = Inr (MakeNullable (GetStringType [''color''] (countsOf [(''red'', 3), (''blue'', 5)])) [''color''])"
proof -
  let ?hs = "[[(''red'', 2)], [(''blue'', 5), (''red'', 1::nat)]]"
  have ne: "?hs \<noteq> []" by simp
  have d: "\<forall>h\<in>set ?hs. distinct (map fst h)" by simp
  have b: "\<forall>v. sum_list (map (\<lambda>h. case map_of h v of None \<Rightarrow> 0 | Some c \<Rightarrow> c) ?hs) \<le> 2 ^ 53"
    by simp
  have three: "sum_list (map (\<lambda>h. case map_of h ''red'' of None \<Rightarrow> 0 | Some c \<Rightarrow> c) ?hs) = 3"
    by simp
  have f: "makePropertyType [''color''] (map (\<lambda>h. TString (Some (countsOf h))) ?hs) False
     = Inr (GetStringType [''color''] (countsOf [(''red'', 3), (''blue'', 5)]))"
    by (simp add: makePropertyType_def resultTypeOf_def mergeWith_def countsOf_def roundToDouble_def)
  from enumerated_strings_merged [OF ne d b, of "[''color'']"] obtain mergedCases where
    "makePropertyType [''color''] (map (\<lambda>h. TString (Some (countsOf h))) ?hs) False
       = Inr (GetStringType [''color''] (countsOf mergedCases))"
    and t: "makePropertyType [''color''] (map (\<lambda>h. TString (Some (countsOf h))) ?hs) True
       = Inr (MakeNullable (GetStringType [''color''] (countsOf mergedCases)) [''color''])"
    by blast
  with f have "countsOf mergedCases = countsOf [(''red'', 3), (''blue'', 5)]" by simp
  with t three ne d show ?thesis by simp
qed

text \<open>
  C8. For an empty type set \<^verbatim>\<open>makePropertyType\<close> builds the null primitive, which like
  every other result is then wrapped when the flag is set; and whenever \<^verbatim>\<open>isNullable\<close>
  is true, the result is \<^verbatim>\<open>makeNullable\<close> applied to the type that would be the result
  without the flag and to the \<^verbatim>\<open>names\<close> the merger was given for the field.
\<close>

theorem makePropertyType_empty_and_nullable:
  "makePropertyType names [] False = Inr (GetPrimitiveType ''null'') \<and>
   makePropertyType names [] True = Inr (MakeNullable (GetPrimitiveType ''null'') names) \<and>
   (\<forall>resultType. makePropertyType names types False = Inr resultType \<longrightarrow>
      makePropertyType names types True = Inr (MakeNullable resultType names)) \<and>
   (\<forall>merged. makePropertyType names types True = Inr merged \<longrightarrow>
      (\<exists>resultType. merged = MakeNullable resultType names \<and>
         makePropertyType names types False = Inr resultType))"
proof (intro conjI allI impI)
  show "makePropertyType names [] False = Inr (GetPrimitiveType ''null'')"
    by (simp add: makePropertyType_def resultTypeOf_def)
  show "makePropertyType names [] True = Inr (MakeNullable (GetPrimitiveType ''null'') names)"
    by (simp add: makePropertyType_def resultTypeOf_def)
next
  fix resultType
  assume "makePropertyType names types False = Inr resultType"
  then show "makePropertyType names types True = Inr (MakeNullable resultType names)"
    by (cases "resultTypeOf names types") (simp_all add: makePropertyType_def)
next
  fix merged
  assume "makePropertyType names types True = Inr merged"
  then show "\<exists>resultType. merged = MakeNullable resultType names \<and>
         makePropertyType names types False = Inr resultType"
    by (cases "resultTypeOf names types") (auto simp: makePropertyType_def)
qed

text \<open>The theorem at the type set of one integer type.\<close>

theorem makePropertyType_empty_and_nullable_witness:
  "makePropertyType [''f''] [TInteger] False = Inr (ReconstituteType TInteger) \<and>
   makePropertyType [''f''] [TInteger] True = Inr (MakeNullable (ReconstituteType TInteger) [''f''])"
proof -
  have f: "makePropertyType [''f''] [TInteger] False = Inr (ReconstituteType TInteger)"
    by (simp add: makePropertyType_def resultTypeOf_def)
  with makePropertyType_empty_and_nullable [of "[''f'']" "[TInteger]"]
  have "makePropertyType [''f''] [TInteger] True = Inr (MakeNullable (ReconstituteType TInteger) [''f''])"
    by blast
  with f show ?thesis by simp
qed

text \<open>
  C10. For every input list without repetitions (the record nodes of an ordered set), the
  clique builder returns cliques that are pairwise disjoint, no record occurs twice among
  all their members, and every member occurs in the input list.
\<close>

theorem cliques_disjoint:
  assumes "distinct cs"
  shows "\<exists>cliques. buildCliques cs [] = Inr cliques \<and>
     distinct (concat cliques) \<and>
     (\<forall>j<length cliques. \<forall>i<j. set (cliques ! i) \<inter> set (cliques ! j) = {}) \<and>
     set (concat cliques) \<subseteq> set cs"
proof -
  from buildCliques_result [of cs "[]"] assms obtain cliques where
    run: "buildCliques cs [] = Inr cliques"
    and d: "distinct (concat cliques)"
    and sub: "set (concat cliques) \<subseteq> set cs"
    by auto
  from d have "\<forall>j<length cliques. \<forall>i<j. set (cliques ! i) \<inter> set (cliques ! j) = {}"
    using distinct_concat_disjoint by blast
  with run d sub show ?thesis by blast
qed

text \<open>The theorem at four records that fall into two cliques.\<close>

theorem cliques_disjoint_witness:
  "distinct
     [\<lparr>typeRef = 1, properties = [(''x'', TInteger)], isFixed = False, getNames = []\<rparr>,
      \<lparr>typeRef = 2, properties = [(''p'', TBool)], isFixed = False, getNames = []\<rparr>,
      \<lparr>typeRef = 3, properties = [(''x'', TInteger)], isFixed = False, getNames = []\<rparr>,
      \<lparr>typeRef = 4, properties = [(''p'', TBool)], isFixed = False, getNames = []\<rparr>] \<and>
   buildCliques
     [\<lparr>typeRef = 1, properties = [(''x'', TInteger)], isFixed = False, getNames = []\<rparr>,
      \<lparr>typeRef = 2, properties = [(''p'', TBool)], isFixed = False, getNames = []\<rparr>,
      \<lparr>typeRef = 3, properties = [(''x'', TInteger)], isFixed = False, getNames = []\<rparr>,
      \<lparr>typeRef = 4, properties = [(''p'', TBool)], isFixed = False, getNames = []\<rparr>] []
   = Inr [[\<lparr>typeRef = 1, properties = [(''x'', TInteger)], isFixed = False, getNames = []\<rparr>,
           \<lparr>typeRef = 3, properties = [(''x'', TInteger)], isFixed = False, getNames = []\<rparr>],
          [\<lparr>typeRef = 2, properties = [(''p'', TBool)], isFixed = False, getNames = []\<rparr>,
           \<lparr>typeRef = 4, properties = [(''p'', TBool)], isFixed = False, getNames = []\<rparr>]] \<and>
   set [\<lparr>typeRef = 1, properties = [(''x'', TInteger)], isFixed = False, getNames = []\<rparr>,
        \<lparr>typeRef = 3, properties = [(''x'', TInteger)], isFixed = False, getNames = []\<rparr>]
   \<inter> set [\<lparr>typeRef = 2, properties = [(''p'', TBool)], isFixed = False, getNames = []\<rparr>,
          \<lparr>typeRef = 4, properties = [(''p'', TBool)], isFixed = False, getNames = []\<rparr>] = {}"
proof -
  let ?A = "\<lparr>typeRef = 1, properties = [(''x'', TInteger)], isFixed = False, getNames = []\<rparr>"
  let ?B = "\<lparr>typeRef = 2, properties = [(''p'', TBool)], isFixed = False, getNames = []\<rparr>"
  let ?C = "\<lparr>typeRef = 3, properties = [(''x'', TInteger)], isFixed = False, getNames = []\<rparr>"
  let ?D = "\<lparr>typeRef = 4, properties = [(''p'', TBool)], isFixed = False, getNames = []\<rparr>"
  have d: "distinct [?A, ?B, ?C, ?D]" by simp
  have run: "buildCliques [?A, ?B, ?C, ?D] [] = Inr [[?A, ?C], [?B, ?D]]" by code_simp
  from cliques_disjoint [OF d] run
  have "\<forall>j<length [[?A, ?C], [?B, ?D]]. \<forall>i<j. set ([[?A, ?C], [?B, ?D]] ! i) \<inter> set ([[?A, ?C], [?B, ?D]] ! j) = {}"
    by auto
  then have "set ([[?A, ?C], [?B, ?D]] ! 0) \<inter> set ([[?A, ?C], [?B, ?D]] ! 1) = {}"
    by (metis One_nat_def length_Cons lessI list.size(3) zero_less_one)
  then have "set [?A, ?C] \<inter> set [?B, ?D] = {}" by simp
  with d run show ?thesis by blast
qed

end
